theory Spec2Isabelle
  imports Main "HOL-Library.Char_ord" "HOL-Library.List_Lexorder" "HOL-Library.Multiset"
    "HOL-Library.Word"
begin

unbundle bit_operations_syntax

section \<open>Python values used by prepare.py\<close>

text \<open>
  The exceptions that the modelled part of the script can raise. \<open>OSError\<close> is what
  \<open>h5py.File\<close> and \<open>os.makedirs\<close> raise, \<open>KeyError\<close> a missing dataset, \<open>OpError\<close> the
  base class of the errors of \<open>tf.io.TFRecordWriter\<close>, \<open>ValueError\<close> comes from
  \<open>np.array_split\<close> and \<open>mp.Pool\<close>, \<open>IndexError\<close> from indexing the list of chunks,
  \<open>EncodeError\<close> from serialising a message that is too large.
\<close>

datatype py_error =
  OSError | KeyError | OpError | ZeroDivisionError | ValueError | IndexError | EncodeError

text \<open>\<open>range(n)\<close> for a Python integer: empty when \<open>n \<le> 0\<close>.\<close>

definition py_range :: "int \<Rightarrow> int list" where
  "py_range n = map int [0..<nat n]"

text \<open>
  The slice \<open>xs[start:stop]\<close> (step 1): a negative bound counts from the end, and both
  bounds are clamped to the length; the slice is empty when the bounds cross.
\<close>

definition slice_bound :: "nat \<Rightarrow> int \<Rightarrow> nat" where
  "slice_bound len i = (if i < 0 then nat (max (i + int len) 0) else nat (min i (int len)))"

definition py_slice :: "'a list \<Rightarrow> int \<Rightarrow> int \<Rightarrow> 'a list" where
  "py_slice xs start stop =
     drop (slice_bound (length xs) start) (take (slice_bound (length xs) stop) xs)"

text \<open>\<open>xs[:stop]\<close>, the slice with no lower bound.\<close>

definition py_slice_to :: "'a list \<Rightarrow> int \<Rightarrow> 'a list" where
  "py_slice_to xs stop = take (slice_bound (length xs) stop) xs"

text \<open>\<open>xs[i]\<close> on a list: a negative index counts from the end, out of range raises.\<close>

definition py_index :: "'a list \<Rightarrow> int \<Rightarrow> py_error + 'a" where
  "py_index xs i =
     (if 0 \<le> i \<and> i < int (length xs) then Inr (xs ! nat i)
      else if i < 0 \<and> - int (length xs) \<le> i then Inr (xs ! nat (int (length xs) + i))
      else Inl IndexError)"

section \<open>Three-dimensional arrays\<close>

text \<open>
  A 3D array is a list of planes, a plane a list of rows, a row a list of cells; the first
  axis is the outermost list. \<open>has_shape\<close> says that the nesting is rectangular, as every
  numpy array is.
\<close>

type_synonym 'a array3 = "'a list list list"

definition has_shape :: "'a array3 \<Rightarrow> nat \<Rightarrow> nat \<Rightarrow> nat \<Rightarrow> bool" where
  "has_shape x d0 d1 d2 =
     (length x = d0 \<and> (\<forall>p \<in> set x. length p = d1 \<and> (\<forall>r \<in> set p. length r = d2)))"

text \<open>\<open>x[i0:i1, j0:j1, k0:k1]\<close>: each axis is sliced on its own.\<close>

definition slice3 :: "'a array3 \<Rightarrow> int \<Rightarrow> int \<Rightarrow> int \<Rightarrow> int \<Rightarrow> int \<Rightarrow> int \<Rightarrow> 'a array3" where
  "slice3 x i0 i1 j0 j1 k0 k1 =
     map (\<lambda>plane. map (\<lambda>row. py_slice row k0 k1) (py_slice plane j0 j1)) (py_slice x i0 i1)"

text \<open>\<open>x.flatten()\<close>: row-major order, the last axis varies fastest.\<close>

definition flatten :: "'a array3 \<Rightarrow> 'a list" where
  "flatten x = concat (concat x)"

section \<open>split_universe\<close>

text \<open>
  The generator is modelled by the list of the arrays it yields, in the order it yields
  them. \<open>x.shape[0] // size\<close> raises \<open>ZeroDivisionError\<close> for \<open>size = 0\<close>, when the
  generator is first advanced. Python's \<open>//\<close> rounds towards minus infinity, as \<open>div\<close> on
  \<open>int\<close> does.
\<close>

definition split_universe :: "'a array3 \<Rightarrow> int \<Rightarrow> py_error + 'a array3 list" where
  "split_universe x sz =
     (if sz = 0 then Inl ZeroDivisionError
      else
        let n = int (length x) div sz in
        Inr (concat (map (\<lambda>i.
          let istart = i * sz; iend = (i + 1) * sz in
          concat (map (\<lambda>j.
            let jstart = j * sz; jend = (j + 1) * sz in
            map (\<lambda>k.
              let kstart = k * sz; kend = (k + 1) * sz in
              slice3 x istart iend jstart jend kstart kend) (py_range n)) (py_range n)))
          (py_range n))))"

text \<open>The array yielded at the loop indices \<open>(i, j, k)\<close>.\<close>

definition sub_universe :: "'a array3 \<Rightarrow> int \<Rightarrow> nat \<Rightarrow> nat \<Rightarrow> nat \<Rightarrow> 'a array3" where
  "sub_universe x sz i j k =
     slice3 x (int i * sz) ((int i + 1) * sz) (int j * sz) ((int j + 1) * sz)
       (int k * sz) ((int k + 1) * sz)"

section \<open>Strings and paths\<close>

text \<open>\<open>s.startswith(p)\<close> and \<open>s.endswith(p)\<close>.\<close>

definition startswith :: "string \<Rightarrow> string \<Rightarrow> bool" where
  "startswith s p = (take (length p) s = p)"

definition endswith :: "string \<Rightarrow> string \<Rightarrow> bool" where
  "endswith s p = (length p \<le> length s \<and> drop (length s - length p) s = p)"

text \<open>
  \<open>os.path.join(a, b)\<close> and \<open>os.path.basename(p)\<close> of \<open>posixpath\<close>: an absolute second
  part replaces the first, a separator is added unless the first part is empty or ends
  with one; the base name is what follows the last separator.
\<close>

definition os_path_join :: "string \<Rightarrow> string \<Rightarrow> string" where
  "os_path_join a b =
     (if startswith b ''/'' then b
      else if a = [] \<or> endswith a ''/'' then a @ b
      else a @ ''/'' @ b)"

definition os_path_basename :: "string \<Rightarrow> string" where
  "os_path_basename p = rev (takeWhile (\<lambda>c. c \<noteq> CHR ''/'') (rev p))"

text \<open>
  \<open>s.replace(old, new)\<close>: every occurrence of \<open>old\<close>, found from left to right without
  overlap, is replaced. With an empty \<open>old\<close> Python puts \<open>new\<close> before every character
  and at the end.
\<close>

function replace_from :: "string \<Rightarrow> string \<Rightarrow> string \<Rightarrow> string" where
  "replace_from [] old new = []"
| "replace_from (c # cs) old new =
     (if old \<noteq> [] \<and> startswith (c # cs) old
      then new @ replace_from (drop (length old) (c # cs)) old new
      else c # replace_from cs old new)"
  by pat_completeness auto
termination
  by (relation "measure (\<lambda>(s, old, new). length s)") (auto simp: neq_Nil_conv)

definition str_replace :: "string \<Rightarrow> string \<Rightarrow> string \<Rightarrow> string" where
  "str_replace s old new =
     (if old = [] then new @ concat (map (\<lambda>c. c # new) s) else replace_from s old new)"

text \<open>
  \<open>'%03i' % i\<close>: the decimal digits of \<open>i\<close>, after the sign, filled with zeros on the left
  up to a width of three characters; a longer number is not cut.
\<close>

fun decimal :: "nat \<Rightarrow> string" where
  "decimal n =
     (if n < 10 then [''0123456789'' ! n]
      else decimal (n div 10) @ [''0123456789'' ! (n mod 10)])"

declare decimal.simps [simp del]

definition fmt_03i :: "int \<Rightarrow> string" where
  "fmt_03i i =
     (let sign = (if i < 0 then [CHR ''-''] else []); ds = decimal (nat \<bar>i\<bar>)
      in sign @ replicate (3 - length sign - length ds) CHR ''0'' @ ds)"

text \<open>
  The number that a string of decimal digits denotes, to state that \<open>'%03i' % i\<close> can be
  read back.
\<close>

definition digit_value :: "char \<Rightarrow> nat" where
  "digit_value c = length (takeWhile (\<lambda>d. d \<noteq> c) ''0123456789'')"

definition undecimal :: "string \<Rightarrow> nat" where
  "undecimal s = foldl (\<lambda>acc c. 10 * acc + digit_value c) 0 s"

section \<open>find_files\<close>

text \<open>
  What \<open>os.walk\<close> sees below \<open>input_dir\<close>: a directory lists its entries by name, in the
  order in which the operating system returns them; anything that is not a directory is a
  \<open>File\<close>. Walking something that is not a directory yields nothing (the error of
  \<open>scandir\<close> is ignored), a directory yields its path, the names of its subdirectories and
  the names of its other entries, and then the walks of its subdirectories. Symbolic
  links are not modelled.
\<close>

datatype fsnode = File | Dir "(string \<times> fsnode) list"

fun is_dir :: "fsnode \<Rightarrow> bool" where
  "is_dir File = False"
| "is_dir (Dir entries) = True"

fun walk :: "string \<Rightarrow> fsnode \<Rightarrow> (string \<times> string list \<times> string list) list" where
  "walk root File = []"
| "walk root (Dir entries) =
     (root, map fst (filter (\<lambda>e. is_dir (snd e)) entries),
           map fst (filter (\<lambda>e. \<not> is_dir (snd e)) entries))
     # concat (map (\<lambda>e. walk (os_path_join root (fst e)) (snd e))
         (filter (\<lambda>e. is_dir (snd e)) entries))"

definition find_files :: "string \<Rightarrow> fsnode \<Rightarrow> int option \<Rightarrow> string list" where
  "find_files input_dir tree max_files =
     (let files = concat (map (\<lambda>(subdir, _, subfiles).
            map (\<lambda>f. os_path_join subdir f) (filter (\<lambda>f. endswith f ''hdf5'') subfiles))
            (walk input_dir tree));
          files = sort files
      in case max_files of None \<Rightarrow> files | Some m \<Rightarrow> py_slice_to files m)"

text \<open>
  The files of a tree, for the statement of what discovery finds: \<open>(root, t, p, name)\<close> is
  in \<open>tree_files\<close> when the tree \<open>t\<close>, found at the path \<open>root\<close>, has at any depth an
  entry called \<open>name\<close> that is not a directory and whose full path is \<open>p\<close>.
\<close>

inductive_set tree_files :: "(string \<times> fsnode \<times> string \<times> string) set" where
  here: "(name, File) \<in> set entries \<Longrightarrow>
           (root, Dir entries, os_path_join root name, name) \<in> tree_files"
| below: "(d, Dir sub) \<in> set entries \<Longrightarrow>
           (os_path_join root d, Dir sub, p, name) \<in> tree_files \<Longrightarrow>
           (root, Dir entries, p, name) \<in> tree_files"

section \<open>np.array_split\<close>

text \<open>
  \<open>numpy.array_split(ary, sections)\<close> for an integer number of sections, along the first
  axis: \<open>ValueError\<close> unless the number is positive; the first
  \<open>len(ary) % sections\<close> chunks get one element more than the others; the chunks are the
  slices between the running sums of the sizes.
\<close>

fun cumsum_from :: "int \<Rightarrow> int list \<Rightarrow> int list" where
  "cumsum_from acc [] = []"
| "cumsum_from acc (v # vs) = (acc + v) # cumsum_from (acc + v) vs"

definition cumsum :: "int list \<Rightarrow> int list" where
  "cumsum vs = cumsum_from 0 vs"

definition array_split :: "'a list \<Rightarrow> int \<Rightarrow> py_error + 'a list list" where
  "array_split ary sections =
     (if sections \<le> 0 then Inl ValueError
      else
        let Ntotal = int (length ary);
            Neach_section = Ntotal div sections;
            extras = Ntotal mod sections;
            section_sizes = [0] @ replicate (nat extras) (Neach_section + 1)
                                @ replicate (nat (sections - extras)) Neach_section;
            div_points = cumsum section_sizes
        in Inr (map (\<lambda>i. py_slice ary (div_points ! i) (div_points ! (i + 1)))
                  [0..<nat sections]))"

text \<open>
  The sizes of the chunks of a list of length \<open>L\<close> split into \<open>n\<close> sections, as natural
  numbers: the list \<open>section_sizes\<close> above without its leading 0.
\<close>

definition chunk_sizes :: "nat \<Rightarrow> nat \<Rightarrow> nat list" where
  "chunk_sizes L n = replicate (L mod n) (L div n + 1) @ replicate (n - L mod n) (L div n)"

section \<open>Record files\<close>

text \<open>
  Bytes, and the numbers of a \<open>FloatList\<close>: a \<open>float\<close> of protocol buffers is an IEEE-754
  single-precision number, kept here as its 32 bits. \<open>le_bytes k n\<close> are the \<open>k\<close> low bytes of
  \<open>n\<close>, the lowest first, and \<open>le_value\<close> reads such bytes back.
\<close>

type_synonym byte = "8 word"

type_synonym float32 = "32 word"

fun le_bytes :: "nat \<Rightarrow> nat \<Rightarrow> byte list" where
  "le_bytes 0 n = []"
| "le_bytes (Suc k) n = of_nat (n mod 256) # le_bytes k (n div 256)"

fun le_value :: "byte list \<Rightarrow> nat" where
  "le_value [] = 0"
| "le_value (b # bs) = unat b + 256 * le_value bs"

definition le32 :: "32 word \<Rightarrow> byte list" where
  "le32 v = le_bytes 4 (unat v)"

definition le64 :: "64 word \<Rightarrow> byte list" where
  "le64 v = le_bytes 8 (unat v)"

text \<open>
  The file that \<open>tf.io.TFRecordWriter\<close> leaves after one \<open>write(data)\<close>, without
  compression: the length of the data as 64 bits, the masked CRC-32C of these eight bytes,
  the data, and the masked CRC-32C of the data. The CRC is the reflected one with the
  polynomial \<open>0x82F63B78\<close>; the mask rotates it right by 15 bits and adds \<open>0xA282EAD8\<close>.
\<close>

definition crc32c_bit :: "32 word \<Rightarrow> 32 word" where
  "crc32c_bit c = (if bit c 0 then drop_bit 1 c XOR 0x82F63B78 else drop_bit 1 c)"

definition crc32c_byte :: "32 word \<Rightarrow> byte \<Rightarrow> 32 word" where
  "crc32c_byte c b = (crc32c_bit ^^ 8) (c XOR ucast b)"

definition crc32c :: "byte list \<Rightarrow> 32 word" where
  "crc32c bs = foldl crc32c_byte 0xFFFFFFFF bs XOR 0xFFFFFFFF"

definition masked_crc :: "byte list \<Rightarrow> 32 word" where
  "masked_crc bs = (let crc = crc32c bs in (drop_bit 15 crc OR push_bit 17 crc) + 0xA282EAD8)"

definition tfrecord :: "byte list \<Rightarrow> byte list" where
  "tfrecord data =
     (let header = le64 (of_nat (length data))
      in header @ le32 (masked_crc header) @ data @ le32 (masked_crc data))"

text \<open>
  The wire format of protocol buffers, as far as \<open>tf.train.Example\<close> uses it. A varint has
  seven bits of the number in each byte, the low ones first, and the top bit set in every
  byte but the last. A field with a length is its tag (the field number times 8, plus the
  wire type 2), the length of its payload and the payload.
\<close>

fun varint :: "nat \<Rightarrow> byte list" where
  "varint n = (if n < 128 then [of_nat n] else of_nat (128 + n mod 128) # varint (n div 128))"

declare varint.simps [simp del]

definition field_bytes :: "nat \<Rightarrow> byte list \<Rightarrow> byte list" where
  "field_bytes num payload = varint (8 * num + 2) @ varint (length payload) @ payload"

definition utf8 :: "string \<Rightarrow> byte list" where
  "utf8 s = map (\<lambda>c. of_nat (of_char c)) s"

text \<open>
  The message \<open>tf.train.Example\<close> that \<open>process_file\<close> builds: its \<open>features\<close> (field 1) hold
  the map \<open>feature\<close> (field 1) with the two keys \<open>x\<close> and \<open>y\<close>; an entry of the map is a key
  (field 1) and a \<open>Feature\<close> (field 2) whose \<open>float_list\<close> (field 2) is a \<open>FloatList\<close>; the
  \<open>value\<close> of a \<open>FloatList\<close> (field 1) is packed, four bytes for each number, and is left out
  when there is none. Protocol buffers do not fix the order in which the entries of a map
  are written: \<open>x_first\<close> says which of the two comes first.
\<close>

record example =
  feature_x :: "float32 list"
  feature_y :: "float32 list"

definition float_list_bytes :: "float32 list \<Rightarrow> byte list" where
  "float_list_bytes vs = (if vs = [] then [] else field_bytes 1 (concat (map le32 vs)))"

definition feature_bytes :: "float32 list \<Rightarrow> byte list" where
  "feature_bytes vs = field_bytes 2 (float_list_bytes vs)"

definition map_entry_bytes :: "string \<Rightarrow> float32 list \<Rightarrow> byte list" where
  "map_entry_bytes key vs =
     field_bytes 1 (field_bytes 1 (utf8 key) @ field_bytes 2 (feature_bytes vs))"

definition example_bytes :: "bool \<Rightarrow> example \<Rightarrow> byte list" where
  "example_bytes x_first e =
     (let ex = map_entry_bytes ''x'' (feature_x e); ey = map_entry_bytes ''y'' (feature_y e)
      in field_bytes 1 (if x_first then ex @ ey else ey @ ex))"

text \<open>
  \<open>example.SerializeToString()\<close>: a message of more than \<open>2 ^ 31 - 1\<close> bytes is refused
  (with \<open>ValueError\<close> or \<open>EncodeError\<close>, by the version of the library; \<open>EncodeError\<close> here).
\<close>

definition SerializeToString :: "bool \<Rightarrow> example \<Rightarrow> py_error + byte list" where
  "SerializeToString x_first e =
     (let data = example_bytes x_first e
      in if 2147483647 < length data then Inl EncodeError else Inr data)"

text \<open>
  Modelled from the spec: the repository has no decoder, and the round trip of the spec
  needs one. \<open>read_example\<close> reads a record file as the two formats above define it: the
  first record of the file, refused when a checksum is wrong, then the message, given as
  the list of its map entries (key and numbers) in the order of the file. Only fields with
  a length are read, as the serialiser writes no others. \<open>float_values\<close> is the float list
  of a key, where the last entry with the key counts and a missing key has no numbers.
\<close>

fun decode_varint :: "byte list \<Rightarrow> (nat \<times> byte list) option" where
  "decode_varint [] = None"
| "decode_varint (b # bs) =
     (if b < 128 then Some (unat b, bs)
      else case decode_varint bs of
             None \<Rightarrow> None
           | Some (n, rest) \<Rightarrow> Some (unat b - 128 + 128 * n, rest))"

lemma decode_varint_shorter:
  "decode_varint bs = Some (n, rest) \<Longrightarrow> length rest < length bs"
  by (induction bs arbitrary: n rest) (auto split: if_splits option.splits)

function parse_fields :: "byte list \<Rightarrow> (nat \<times> byte list) list option" where
  "parse_fields bs =
     (if bs = [] then Some []
      else case decode_varint bs of
             None \<Rightarrow> None
           | Some (tag, r1) \<Rightarrow>
               if tag mod 8 \<noteq> 2 then None
               else case decode_varint r1 of
                      None \<Rightarrow> None
                    | Some (len, r2) \<Rightarrow>
                        if length r2 < len then None
                        else case parse_fields (drop len r2) of
                               None \<Rightarrow> None
                             | Some fs \<Rightarrow> Some ((tag div 8, take len r2) # fs))"
  by pat_completeness auto
termination
proof (relation "measure length")
  show "wf (measure length)" by simp
next
  fix bs :: "byte list" and x2 tag r1 x2a len r2
  assume "decode_varint bs = Some x2" "(tag, r1) = x2" "decode_varint r1 = Some x2a"
    "(len, r2) = x2a"
  then have "length r2 < length r1" "length r1 < length bs"
    using decode_varint_shorter by metis+
  then show "(drop len r2, bs) \<in> measure length" by simp
qed

declare parse_fields.simps [simp del]

fun unpack_floats :: "byte list \<Rightarrow> float32 list option" where
  "unpack_floats [] = Some []"
| "unpack_floats (a # b # c # d # rest) =
     (case unpack_floats rest of
        None \<Rightarrow> None
      | Some vs \<Rightarrow> Some (of_nat (le_value [a, b, c, d]) # vs))"
| "unpack_floats bs = None"

definition read_tfrecord :: "byte list \<Rightarrow> byte list option" where
  "read_tfrecord bs =
     (let header = take 8 bs; len = le_value header
      in if length bs < 12 \<or> take 4 (drop 8 bs) \<noteq> le32 (masked_crc header) then None
         else let data = take len (drop 12 bs)
              in if length bs < 12 + len + 4
                    \<or> take 4 (drop (12 + len) bs) \<noteq> le32 (masked_crc data)
                 then None
                 else Some data)"

definition parse_float_list :: "byte list \<Rightarrow> float32 list option" where
  "parse_float_list payload =
     (case parse_fields payload of
        None \<Rightarrow> None
      | Some fs \<Rightarrow>
          if list_all (\<lambda>f. fst f = 1) fs
          then map_option concat (those (map (\<lambda>f. unpack_floats (snd f)) fs))
          else None)"

definition parse_feature :: "byte list \<Rightarrow> float32 list option" where
  "parse_feature payload =
     (case parse_fields payload of
        Some [f] \<Rightarrow> if fst f = 2 then parse_float_list (snd f) else None
      | _ \<Rightarrow> None)"

definition parse_map_entry :: "byte list \<Rightarrow> (byte list \<times> float32 list) option" where
  "parse_map_entry payload =
     (case parse_fields payload of
        Some [k, v] \<Rightarrow>
          if fst k = 1 \<and> fst v = 2 then map_option (Pair (snd k)) (parse_feature (snd v))
          else None
      | _ \<Rightarrow> None)"

definition parse_example :: "byte list \<Rightarrow> (byte list \<times> float32 list) list option" where
  "parse_example data =
     (case parse_fields data of
        Some [f] \<Rightarrow>
          if fst f = 1
          then (case parse_fields (snd f) of
                  None \<Rightarrow> None
                | Some es \<Rightarrow>
                    if list_all (\<lambda>e. fst e = 1) es
                    then those (map (\<lambda>e. parse_map_entry (snd e)) es)
                    else None)
          else None
      | _ \<Rightarrow> None)"

definition read_example :: "byte list \<Rightarrow> (byte list \<times> float32 list) list option" where
  "read_example file =
     (case read_tfrecord file of None \<Rightarrow> None | Some data \<Rightarrow> parse_example data)"

definition float_values :: "(byte list \<times> float32 list) list \<Rightarrow> string \<Rightarrow> float32 list" where
  "float_values entries key =
     (case map_of (rev entries) (utf8 key) of None \<Rightarrow> [] | Some vs \<Rightarrow> vs)"

section \<open>Files and the state of a run\<close>

text \<open>
  A source file holds the datasets \<open>full\<close> and \<open>unitPar\<close>, either of which may be missing.
  The type \<open>'a\<close> of its cells is left open.
\<close>

record 'a hdf5_file =
  full :: "'a array3 option"
  unitPar :: "'a list option"

text \<open>
  The part of the outside world that the script reads and changes. What it finds: the
  directory tree at \<open>input_dir\<close>, the source files that \<open>h5py\<close> can open (by path), the
  paths at which a record file can be opened for writing and a directory created, and the
  library: the single-precision number that \<open>tf.train.FloatList\<close> makes of a cell, and the
  order in which the serialiser writes the two entries of a message. What the run has
  done: the paths it has opened for reading, the directories it has made and the bytes of
  the files it has written. Writing a file at a path replaces what was there, a source
  file too. The directory tree is read once, before anything is written. Logging is left
  out.
\<close>

record 'a world =
  input_tree :: fsnode
  hdf5_files :: "string \<Rightarrow> 'a hdf5_file option"
  writable :: "string \<Rightarrow> bool"
  can_makedirs :: "string \<Rightarrow> bool"
  to_float32 :: "'a \<Rightarrow> float32"
  entry_order :: "example \<Rightarrow> bool"
  reads :: "string list"
  made_dirs :: "string list"
  outputs :: "string \<Rightarrow> byte list option"

definition read_hdf5 ::
  "'a world \<Rightarrow> string \<Rightarrow> (py_error + ('a array3 \<times> 'a list)) \<times> 'a world" where
  "read_hdf5 w file_path =
     (let w' = w\<lparr>reads := reads w @ [file_path]\<rparr> in
      case hdf5_files w file_path of
        None \<Rightarrow> (Inl OSError, w')
      | Some f \<Rightarrow>
          (case full f of
             None \<Rightarrow> (Inl KeyError, w')
           | Some x \<Rightarrow>
               (case unitPar f of
                  None \<Rightarrow> (Inl KeyError, w')
                | Some y \<Rightarrow> (Inr (x, y), w'))))"

text \<open>
  \<open>write_record\<close>: the writer opens the file first, which empties it or fails; then the
  message is serialised, and an exception there leaves the empty file; then the record is
  written.
\<close>

definition write_record ::
  "'a world \<Rightarrow> string \<Rightarrow> example \<Rightarrow> (py_error + unit) \<times> 'a world" where
  "write_record w output_file ex =
     (if \<not> writable w output_file then (Inl OpError, w)
      else
        let w' = w\<lparr>outputs := (outputs w)(output_file \<mapsto> []),
                     hdf5_files := (hdf5_files w)(output_file := None)\<rparr>
        in case SerializeToString (entry_order w ex) ex of
             Inl e \<Rightarrow> (Inl e, w')
           | Inr data \<Rightarrow> (Inr (), w'\<lparr>outputs := (outputs w')(output_file \<mapsto> tfrecord data)\<rparr>))"

text \<open>A path at which \<open>read_hdf5\<close> finds a file with both datasets.\<close>

definition readable :: "'a world \<Rightarrow> string \<Rightarrow> bool" where
  "readable w file_path =
     (case hdf5_files w file_path of
        None \<Rightarrow> False
      | Some f \<Rightarrow> full f \<noteq> None \<and> unitPar f \<noteq> None)"

section \<open>process_file\<close>

text \<open>The name of the output file of the sub-volume with index \<open>i\<close>.\<close>

definition output_file_name :: "string \<Rightarrow> string \<Rightarrow> nat \<Rightarrow> string" where
  "output_file_name output_dir input_file i =
     os_path_join output_dir
       (str_replace (os_path_basename input_file) ''.hdf5''
          (''_'' @ fmt_03i (int i) @ ''.tfrecord''))"

text \<open>
  The body of the loop over \<open>enumerate(split_universe(x, sample_size))\<close>: the two float
  lists take the cells of the flattened sub-volume and of the parameter vector as
  single-precision numbers; an exception of \<open>write_record\<close> ends the loop, and what was
  written before stays.
\<close>

fun write_sub_volumes ::
  "'a world \<Rightarrow> string \<Rightarrow> string \<Rightarrow> 'a list \<Rightarrow> (nat \<times> 'a array3) list
     \<Rightarrow> (py_error + unit) \<times> 'a world" where
  "write_sub_volumes w input_file output_dir y [] = (Inr (), w)"
| "write_sub_volumes w input_file output_dir y ((i, xi) # rest) =
     (let tf_example = \<lparr>feature_x = map (to_float32 w) (flatten xi),
                         feature_y = map (to_float32 w) y\<rparr>;
          output_file = output_file_name output_dir input_file i
      in case write_record w output_file tf_example of
           (Inl e, w') \<Rightarrow> (Inl e, w')
         | (Inr u, w') \<Rightarrow> write_sub_volumes w' input_file output_dir y rest)"

definition process_file ::
  "'a world \<Rightarrow> string \<Rightarrow> string \<Rightarrow> int \<Rightarrow> (py_error + unit) \<times> 'a world" where
  "process_file w input_file output_dir sample_size =
     (case read_hdf5 w input_file of
        (Inl e, w') \<Rightarrow> (Inl e, w')
      | (Inr (x, y), w') \<Rightarrow>
          (case split_universe x sample_size of
             Inl e \<Rightarrow> (Inl e, w')
           | Inr cubes \<Rightarrow> write_sub_volumes w' input_file output_dir y (enumerate 0 cubes)))"

section \<open>main\<close>

text \<open>The parsed command line.\<close>

record args =
  input_dir :: string
  output_dir :: string
  verbose :: bool
  sample_size :: int
  max_files :: "int option"
  n_workers :: int
  task :: int
  n_tasks :: int

text \<open>
  \<open>pool.map(func, files)\<close> of a pool with \<open>processes\<close> workers. The files are cut into
  batches of \<open>len(files) // (4 * processes)\<close> files, one more when the division leaves a
  remainder. A worker runs a batch file by file, and an exception ends the batch. The
  other batches are run all the same, and the exception is raised again when every batch
  is done. The model runs the batches one after the other in the order of the list and
  raises the first exception in this order; the workers run them at the same time and
  in no fixed order.
\<close>

definition pool_chunksize :: "nat \<Rightarrow> nat \<Rightarrow> nat" where
  "pool_chunksize n processes =
     (let chunksize = n div (processes * 4); extra = n mod (processes * 4)
      in if extra \<noteq> 0 then chunksize + 1 else chunksize)"

function batches :: "nat \<Rightarrow> 'b list \<Rightarrow> 'b list list" where
  "batches k xs =
     (if k = 0 \<or> xs = [] then [] else take k xs # batches k (drop k xs))"
  by pat_completeness auto
termination
  by (relation "measure (\<lambda>(k, xs). length xs)") auto

declare batches.simps [simp del]

fun run_batch ::
  "('a world \<Rightarrow> string \<Rightarrow> (py_error + unit) \<times> 'a world) \<Rightarrow> 'a world \<Rightarrow> string list
     \<Rightarrow> (py_error + unit) \<times> 'a world" where
  "run_batch f w [] = (Inr (), w)"
| "run_batch f w (file # files) =
     (case f w file of
        (Inl e, w') \<Rightarrow> (Inl e, w')
      | (Inr u, w') \<Rightarrow> run_batch f w' files)"

fun run_batches ::
  "('a world \<Rightarrow> string \<Rightarrow> (py_error + unit) \<times> 'a world) \<Rightarrow> 'a world \<Rightarrow> string list list
     \<Rightarrow> (py_error + unit) \<times> 'a world" where
  "run_batches f w [] = (Inr (), w)"
| "run_batches f w (b # bs) =
     (case run_batch f w b of
        (r, w') \<Rightarrow>
          (case run_batches f w' bs of
             (rs, w'') \<Rightarrow> (case r of Inl e \<Rightarrow> (Inl e, w'') | Inr u \<Rightarrow> (rs, w''))))"

definition pool_map ::
  "('a world \<Rightarrow> string \<Rightarrow> (py_error + unit) \<times> 'a world) \<Rightarrow> nat \<Rightarrow> 'a world \<Rightarrow> string list
     \<Rightarrow> (py_error + unit) \<times> 'a world" where
  "pool_map f processes w files =
     run_batches f w (batches (pool_chunksize (length files) processes) files)"

text \<open>
  \<open>mp.Pool\<close> raises \<open>ValueError\<close> for fewer than one process. The result of \<open>main\<close> is
  \<open>Inr ()\<close> when the script ends normally, with the exit status 0, and otherwise the
  exception that ends it, with an exit status other than 0.
\<close>

definition main :: "args \<Rightarrow> 'a world \<Rightarrow> (py_error + unit) \<times> 'a world" where
  "main a w =
     (if \<not> can_makedirs w (output_dir a) then (Inl OSError, w)
      else
        let w1 = w\<lparr>made_dirs := made_dirs w @ [output_dir a]\<rparr>;
            input_files = find_files (input_dir a) (input_tree w1) (max_files a)
        in case array_split input_files (n_tasks a) of
             Inl e \<Rightarrow> (Inl e, w1)
           | Inr chunks \<Rightarrow>
               (case py_index chunks (task a) of
                  Inl e \<Rightarrow> (Inl e, w1)
                | Inr my_files \<Rightarrow>
                    if n_workers a < 1 then (Inl ValueError, w1)
                    else pool_map (\<lambda>w' f. process_file w' f (output_dir a) (sample_size a))
                           (nat (n_workers a)) w1 my_files))"

section \<open>Example data\<close>

text \<open>
  A source file of single-precision numbers with a volume of edge 2, whose cells are the
  numbers 11.0 to 18.0, and the two parameters 21.0 and 22.0; a world that holds it at
  \<open>in/a.hdf5\<close>, with an empty output directory and a library that stores such numbers
  as they are and writes the entry \<open>x\<close> first; and the same world with two files already
  in the output directory. They serve the concrete instances of the theorems.
\<close>

definition demo_file :: "float32 hdf5_file" where
  "demo_file =
     \<lparr>full = Some [[[0x41300000, 0x41400000], [0x41500000, 0x41600000]],
                   [[0x41700000, 0x41800000], [0x41880000, 0x41900000]]],
      unitPar = Some [0x41A80000, 0x41B00000]\<rparr>"

definition demo_world :: "float32 world" where
  "demo_world =
     \<lparr>input_tree = Dir [(''a.hdf5'', File)],
      hdf5_files = (\<lambda>p. if p = ''in/a.hdf5'' then Some demo_file else None),
      writable = (\<lambda>p. True), can_makedirs = (\<lambda>p. True),
      to_float32 = (\<lambda>v. v), entry_order = (\<lambda>e. True),
      reads = [], made_dirs = [], outputs = Map.empty\<rparr>"


text \<open>
  A directory tree with source files at two levels, a file whose name ends in \<open>hdf5\<close>
  without a dot, and files of other kinds.
\<close>

definition demo_tree :: fsnode where
  "demo_tree =
     Dir [(''b.hdf5'', File), (''notes.txt'', File),
          (''sub'', Dir [(''a.hdf5'', File), (''c.h5'', File)]), (''ahdf5'', File)]"

text \<open>
  A command line with the sample size \<open>-1\<close>, one task and one worker, for the world
  \<open>demo_world\<close>.
\<close>

definition demo_args :: args where
  "demo_args =
     \<lparr>input_dir = ''in'', output_dir = ''out'', verbose = False, sample_size = - 1,
      max_files = None, n_workers = 1, task = 0, n_tasks = 1\<rparr>"

text \<open>
  The world \<open>demo_world\<close> with the source file at \<open>in/ahdf5\<close>, a path that \<open>find_files\<close>
  returns for \<open>demo_tree\<close>, and the world in which the source file lies in the output
  directory, at \<open>out/ahdf5\<close>.
\<close>

definition demo_world3 :: "float32 world" where
  "demo_world3 =
     demo_world\<lparr>input_tree := demo_tree,
                 hdf5_files := (\<lambda>p. if p = ''in/ahdf5'' then Some demo_file else None)\<rparr>"

definition demo_world4 :: "float32 world" where
  "demo_world4 =
     demo_world\<lparr>input_tree := Dir [(''ahdf5'', File)],
                 hdf5_files := (\<lambda>p. if p = ''out/ahdf5'' then Some demo_file else None)\<rparr>"

section \<open>Lists cut into blocks of equal length\<close>

lemma length_concat_uniform:
  "(\<And>i. i < n \<Longrightarrow> length (f i) = m) \<Longrightarrow> length (concat (map f [0..<n])) = n * m"
  by (induction n) simp_all

lemma nth_concat_uniform:
  assumes "\<And>i. i < n \<Longrightarrow> length (f i) = m" and "i < n" and "j < m"
  shows "concat (map f [0..<n]) ! (i * m + j) = f i ! j"
  using assms
proof (induction n)
  case 0
  then show ?case by simp
next
  case (Suc n)
  have len: "length (concat (map f [0..<n])) = n * m"
    using Suc.prems(1) by (simp add: length_concat_uniform)
  show ?case
  proof (cases "i < n")
    case True
    then have "i * m + j < n * m"
      using Suc.prems(3)
      by (metis Suc_leI add.commute mult_Suc mult_le_mono1 nat_add_left_cancel_less order_less_le_trans)
    with True Suc show ?thesis by (simp add: nth_append len)
  next
    case False
    with Suc.prems(2) have "i = n" by simp
    then show ?thesis by (simp add: nth_append len)
  qed
qed

lemma split_universe_blocks:
  "sz \<noteq> 0 \<Longrightarrow> split_universe x sz =
     Inr (concat (map (\<lambda>i. concat (map (\<lambda>j. map (\<lambda>k. sub_universe x sz i j k)
       [0..<nat (int (length x) div sz)]) [0..<nat (int (length x) div sz)]))
       [0..<nat (int (length x) div sz)]))"
  by (simp add: split_universe_def py_range_def Let_def sub_universe_def comp_def)

lemma slice_bound_nat: "slice_bound len (int a) = min a len"
  by (simp add: slice_bound_def min_def)

lemma py_slice_nat: "py_slice xs (int a) (int b) = drop a (take b xs)"
  by (simp add: py_slice_def slice_bound_nat min_def)

lemma sub_universe_nat:
  "sub_universe x (int S) i j k =
     map (\<lambda>plane. map (\<lambda>row. drop (k * S) (take ((k + 1) * S) row))
       (drop (j * S) (take ((j + 1) * S) plane))) (drop (i * S) (take ((i + 1) * S) x))"
proof -
  have a: "\<And>m. int m * int S = int (m * S)" by simp
  have b: "\<And>m. (int m + 1) * int S = int ((m + 1) * S)" by (simp add: algebra_simps)
  show ?thesis
    unfolding sub_universe_def slice3_def a b py_slice_nat ..
qed

lemma block_le: "i < n \<Longrightarrow> (i + 1) * S \<le> n * (S::nat)"
  by (simp add: Suc_leI mult_le_mono1 del: mult_Suc)

lemma block_slice:
  assumes "(m + 1) * S \<le> length ys"
  shows "length (drop (m * S) (take ((m + 1) * S) ys)) = S"
    and "d < S \<Longrightarrow> drop (m * S) (take ((m + 1) * S) ys) ! d = ys ! (m * S + d)"
proof -
  have e: "(m + 1) * S = m * S + S" by simp
  show "length (drop (m * S) (take ((m + 1) * S) ys)) = S"
    using assms unfolding e by simp
  show "d < S \<Longrightarrow> drop (m * S) (take ((m + 1) * S) ys) ! d = ys ! (m * S + d)"
    using assms unfolding e by simp
qed

lemma sub_universe_shape:
  assumes "has_shape x E E E" and "i < E div S" "j < E div S" "k < E div S"
  shows "has_shape (sub_universe x (int S) i j k) S S S"
proof -
  have le: "\<And>m. m < E div S \<Longrightarrow> (m + 1) * S \<le> E"
  proof -
    fix m assume "m < E div S"
    then have "(m + 1) * S \<le> (E div S) * S" by (rule block_le)
    also have "\<dots> \<le> E" by simp
    finally show "(m + 1) * S \<le> E" .
  qed
  have len: "\<And>m (ys::'b list). m < E div S \<Longrightarrow> length ys = E \<Longrightarrow>
      length (drop (m * S) (take ((m + 1) * S) ys)) = S"
    using le block_slice(1) by metis
  have px: "\<And>p. p \<in> set x \<Longrightarrow> length p = E" and
       rx: "\<And>p r. p \<in> set x \<Longrightarrow> r \<in> set p \<Longrightarrow> length r = E"
    using assms(1) by (auto simp: has_shape_def)
  have lx: "length x = E" using assms(1) by (simp add: has_shape_def)
  show ?thesis
    unfolding sub_universe_nat has_shape_def
  proof (intro conjI ballI)
    show "length (map (\<lambda>plane. map (\<lambda>row. drop (k * S) (take ((k + 1) * S) row))
       (drop (j * S) (take ((j + 1) * S) plane))) (drop (i * S) (take ((i + 1) * S) x))) = S"
      using len[OF assms(2) lx] by simp
  next
    fix p assume "p \<in> set (map (\<lambda>plane. map (\<lambda>row. drop (k * S) (take ((k + 1) * S) row))
       (drop (j * S) (take ((j + 1) * S) plane))) (drop (i * S) (take ((i + 1) * S) x)))"
    then obtain pl where pl: "pl \<in> set x"
      "p = map (\<lambda>row. drop (k * S) (take ((k + 1) * S) row)) (drop (j * S) (take ((j + 1) * S) pl))"
      by (auto dest!: in_set_dropD in_set_takeD)
    show "length p = S" using len[OF assms(3) px[OF pl(1)]] pl(2) by simp
    fix r assume "r \<in> set p"
    then obtain rw where "rw \<in> set pl" "r = drop (k * S) (take ((k + 1) * S) rw)"
      using pl(2) by (auto dest!: in_set_dropD in_set_takeD)
    then show "length r = S" using len[OF assms(4) rx[OF pl(1)]] by simp
  qed
qed

lemma sub_universe_cell:
  assumes "has_shape x E E E" and "i < E div S" "j < E div S" "k < E div S"
    and "a < S" "b < S" "c < S"
  shows "sub_universe x (int S) i j k ! a ! b ! c = x ! (i * S + a) ! (j * S + b) ! (k * S + c)"
proof -
  have le: "\<And>m. m < E div S \<Longrightarrow> (m + 1) * S \<le> E"
  proof -
    fix m assume "m < E div S"
    then have "(m + 1) * S \<le> (E div S) * S" by (rule block_le)
    also have "\<dots> \<le> E" by simp
    finally show "(m + 1) * S \<le> E" .
  qed
  have nth: "\<And>m d (ys::'b list). m < E div S \<Longrightarrow> d < S \<Longrightarrow> length ys = E \<Longrightarrow>
      m * S + d < E \<and> length (drop (m * S) (take ((m + 1) * S) ys)) = S \<and>
      drop (m * S) (take ((m + 1) * S) ys) ! d = ys ! (m * S + d)"
  proof -
    fix m d and ys :: "'b list"
    assume h: "m < E div S" "d < S" "length ys = E"
    have l: "(m + 1) * S \<le> length ys" using le[OF h(1)] h(3) by simp
    have "m * S + d < (m + 1) * S" using h(2) by simp
    then have "m * S + d < E" using l h(3) by linarith
    then show "m * S + d < E \<and> length (drop (m * S) (take ((m + 1) * S) ys)) = S \<and>
      drop (m * S) (take ((m + 1) * S) ys) ! d = ys ! (m * S + d)"
      using block_slice[OF l] h(2) by simp
  qed
  have lx: "length x = E" using assms(1) by (simp add: has_shape_def)
  note nx = nth[OF assms(2) assms(5) lx]
  have "x ! (i * S + a) \<in> set x" using nx lx by simp
  then have lp: "length (x ! (i * S + a)) = E"
    and lr: "\<And>r. r \<in> set (x ! (i * S + a)) \<Longrightarrow> length r = E"
    using assms(1) by (auto simp: has_shape_def)
  note np = nth[OF assms(3) assms(6) lp]
  have "x ! (i * S + a) ! (j * S + b) \<in> set (x ! (i * S + a))" using np lp by simp
  then have lr': "length (x ! (i * S + a) ! (j * S + b)) = E" by (rule lr)
  note nr = nth[OF assms(4) assms(7) lr']
  show ?thesis
    unfolding sub_universe_nat using nx np nr assms(5,6,7) by simp
qed

section \<open>The order of the sub-volumes\<close>

lemma split_universe_length:
  "sz \<noteq> 0 \<Longrightarrow> n = nat (int (length x) div sz) \<Longrightarrow>
   \<exists>cubes. split_universe x sz = Inr cubes \<and> length cubes = n * n * n \<and>
     (\<forall>i<n. \<forall>j<n. \<forall>k<n. cubes ! ((i * n + j) * n + k) = sub_universe x sz i j k)"
proof -
  assume sz: "sz \<noteq> 0" and n: "n = nat (int (length x) div sz)"
  define row where "row i j = map (\<lambda>k. sub_universe x sz i j k) [0..<n]" for i j
  define slab where "slab i = concat (map (\<lambda>j. row i j) [0..<n])" for i
  have lrow: "\<And>i j. length (row i j) = n" by (simp add: row_def)
  have lslab: "\<And>i. length (slab i) = n * n"
    unfolding slab_def by (rule length_concat_uniform) (rule lrow)
  have eq: "split_universe x sz = Inr (concat (map slab [0..<n]))"
  proof -
    have "slab = (\<lambda>i. concat (map (\<lambda>j. map (\<lambda>k. sub_universe x sz i j k) [0..<n]) [0..<n]))"
      by (rule ext) (simp add: slab_def row_def)
    then show ?thesis using split_universe_blocks[OF sz, of x] by (simp add: n)
  qed
  have len: "length (concat (map slab [0..<n])) = n * n * n"
    using length_concat_uniform[of n slab "n * n"] lslab by (simp add: mult.assoc)
  have nth: "concat (map slab [0..<n]) ! ((i * n + j) * n + k) = sub_universe x sz i j k"
    if "i < n" "j < n" "k < n" for i j k
  proof -
    have jk: "j * n + k < n * n"
    proof -
      have "j * n + k < j * n + n" using that(3) by simp
      also have "\<dots> = (j + 1) * n" by simp
      also have "\<dots> \<le> n * n" using that(2) by (rule block_le)
      finally show ?thesis .
    qed
    have e: "(i * n + j) * n + k = i * (n * n) + (j * n + k)" by (simp add: algebra_simps)
    have "concat (map slab [0..<n]) ! ((i * n + j) * n + k) = slab i ! (j * n + k)"
      unfolding e by (rule nth_concat_uniform[OF lslab that(1) jk])
    also have "\<dots> = row i j ! k"
      unfolding slab_def using nth_concat_uniform[of n "row i" n j k] lrow that(2,3) by simp
    also have "\<dots> = sub_universe x sz i j k" using that(3) by (simp add: row_def)
    finally show ?thesis .
  qed
  show ?thesis using eq len nth by blast
qed

lemma upt_2: "[0..<2] = [0, Suc 0]"
  by (simp add: upt_rec numeral_2_eq_2)

lemma split_universe_two:
  assumes "0 < sz" and "int (length x) = 2 * sz"
  shows "split_universe x sz =
     Inr [sub_universe x sz 0 0 0, sub_universe x sz 0 0 1, sub_universe x sz 0 1 0,
          sub_universe x sz 0 1 1, sub_universe x sz 1 0 0, sub_universe x sz 1 0 1,
          sub_universe x sz 1 1 0, sub_universe x sz 1 1 1]"
proof -
  have "nat (int (length x) div sz) = 2" using assms by simp
  then show ?thesis
    using split_universe_blocks[of sz x] assms(1) by (simp add: upt_2)
qed

text \<open>
  Claim C2. For a sample size other than 0 the generator yields
  \<open>n * n * n\<close> arrays, where \<open>n\<close> is \<open>x.shape[0] // size\<close> (none when that is not positive), and
  the array at position \<open>(i * n + j) * n + k\<close> is the one of the loop indices \<open>(i, j, k)\<close>:
  \<open>i\<close> varies slowest and \<open>k\<close> fastest. For an edge of twice the sample size these are
  the eight arrays of the indices (0,0,0), (0,0,1), (0,1,0), (0,1,1), (1,0,0), (1,0,1),
  (1,1,0), (1,1,1), in this order. For the sample size 0 the division raises.
\<close>

theorem split_universe_order:
  "split_universe x 0 = Inl ZeroDivisionError \<and>
   (sz \<noteq> 0 \<longrightarrow>
      (\<exists>cubes. split_universe x sz = Inr cubes \<and>
         length cubes = nat (int (length x) div sz) ^ 3 \<and>
         (\<forall>i < nat (int (length x) div sz). \<forall>j < nat (int (length x) div sz).
            \<forall>k < nat (int (length x) div sz).
              cubes ! ((i * nat (int (length x) div sz) + j) * nat (int (length x) div sz) + k)
                = sub_universe x sz i j k))) \<and>
   (0 < sz \<and> int (length x) = 2 * sz \<longrightarrow>
      split_universe x sz =
        Inr [sub_universe x sz 0 0 0, sub_universe x sz 0 0 1, sub_universe x sz 0 1 0,
             sub_universe x sz 0 1 1, sub_universe x sz 1 0 0, sub_universe x sz 1 0 1,
             sub_universe x sz 1 1 0, sub_universe x sz 1 1 1])"
proof (intro conjI impI)
  show "split_universe x 0 = Inl ZeroDivisionError" by (simp add: split_universe_def)
next
  assume "sz \<noteq> 0"
  from split_universe_length[OF this refl, of x]
  show "\<exists>cubes. split_universe x sz = Inr cubes \<and>
         length cubes = nat (int (length x) div sz) ^ 3 \<and>
         (\<forall>i < nat (int (length x) div sz). \<forall>j < nat (int (length x) div sz).
            \<forall>k < nat (int (length x) div sz).
              cubes ! ((i * nat (int (length x) div sz) + j) * nat (int (length x) div sz) + k)
                = sub_universe x sz i j k)"
    by (simp add: power3_eq_cube)
next
  assume "0 < sz \<and> int (length x) = 2 * sz"
  then show "split_universe x sz =
        Inr [sub_universe x sz 0 0 0, sub_universe x sz 0 0 1, sub_universe x sz 0 1 0,
             sub_universe x sz 0 1 1, sub_universe x sz 1 0 0, sub_universe x sz 1 0 1,
             sub_universe x sz 1 1 0, sub_universe x sz 1 1 1]"
    using split_universe_two by blast
qed

theorem split_universe_order_witness:
  "split_universe [[[1, 2], [3, 4]], [[5, 6], [7, 8::nat]]] 1 =
     Inr [[[[1]]], [[[2]]], [[[3]]], [[[4]]], [[[5]]], [[[6]]], [[[7]]], [[[8]]]]"
  using split_universe_order[of "[[[1, 2], [3, 4]], [[5, 6], [7, 8::nat]]]" 1]
  by (simp add: sub_universe_def slice3_def py_slice_def slice_bound_def)

section \<open>The sub-volumes partition the volume\<close>

lemma blocks_concat:
  "concat (map (\<lambda>i. drop (i * S) (take ((i + 1) * S) xs)) [0..<n]) = take (n * S) xs"
proof (induction n)
  case 0
  show ?case by simp
next
  case (Suc n)
  have "take (Suc n * S) xs = take (n * S) (take (Suc n * S) xs) @ drop (n * S) (take (Suc n * S) xs)"
    by (simp only: append_take_drop_id)
  also have "take (n * S) (take (Suc n * S) xs) = take (n * S) xs"
    by (simp add: min_def)
  finally show ?case using Suc.IH by simp
qed

lemma sum_list_swap:
  fixes f :: "'a \<Rightarrow> 'b \<Rightarrow> 'c::comm_monoid_add"
  shows "(\<Sum>a\<leftarrow>xs. \<Sum>b\<leftarrow>ys. f a b) = (\<Sum>b\<leftarrow>ys. \<Sum>a\<leftarrow>xs. f a b)"
  by (induction xs) (simp_all add: sum_list_addf)

lemma sum_list_map_concat:
  fixes g :: "'a \<Rightarrow> 'c::comm_monoid_add"
  shows "(\<Sum>y\<leftarrow>concat xss. g y) = (\<Sum>xs\<leftarrow>xss. \<Sum>y\<leftarrow>xs. g y)"
  by (induction xss) simp_all

lemma py_slice_prefix: "py_slice ys 0 (int m) = take m ys"
  using py_slice_nat[of ys 0 m] by simp

lemma sum_list_blocks:
  fixes g :: "'a \<Rightarrow> 'c::comm_monoid_add"
  shows "(\<Sum>i\<leftarrow>[0..<n]. \<Sum>y\<leftarrow>drop (i * S) (take ((i + 1) * S) xs). g y) = (\<Sum>y\<leftarrow>take (n * S) xs. g y)"
proof -
  have "(\<Sum>y\<leftarrow>take (n * S) xs. g y)
      = (\<Sum>y\<leftarrow>concat (map (\<lambda>i. drop (i * S) (take ((i + 1) * S) xs)) [0..<n]). g y)"
    by (simp only: blocks_concat)
  also have "\<dots> = (\<Sum>i\<leftarrow>[0..<n]. \<Sum>y\<leftarrow>drop (i * S) (take ((i + 1) * S) xs). g y)"
    by (simp add: sum_list_map_concat comp_def)
  finally show ?thesis by simp
qed

lemma mset_flatten: "mset (flatten x) = (\<Sum>plane\<leftarrow>x. \<Sum>row\<leftarrow>plane. mset row)"
proof -
  have "mset (flatten x) = (\<Sum>row\<leftarrow>concat x. mset row)"
    by (simp add: flatten_def mset_concat)
  then show ?thesis by (simp add: sum_list_map_concat)
qed

lemma mset_flatten_sub_universe:
  "mset (flatten (sub_universe x (int S) i j k)) =
     (\<Sum>plane\<leftarrow>drop (i * S) (take ((i + 1) * S) x).
        \<Sum>row\<leftarrow>drop (j * S) (take ((j + 1) * S) plane).
          mset (drop (k * S) (take ((k + 1) * S) row)))"
  by (simp add: mset_flatten sub_universe_nat comp_def)

lemma slice3_prefix:
  "slice3 x 0 (int m) 0 (int m) 0 (int m) = map (\<lambda>plane. map (take m) (take m plane)) (take m x)"
  by (simp add: slice3_def py_slice_prefix)

lemma mset_sub_universes:
  "(\<Sum>i\<leftarrow>[0..<n]. \<Sum>j\<leftarrow>[0..<n]. \<Sum>k\<leftarrow>[0..<n]. mset (flatten (sub_universe x (int S) i j k)))
     = mset (flatten (slice3 x 0 (int (n * S)) 0 (int (n * S)) 0 (int (n * S))))"
proof -
  let ?B = "\<lambda>m ys. drop (m * S) (take ((m + 1) * S) ys)"
  have inner: "(\<Sum>k\<leftarrow>[0..<n]. \<Sum>plane\<leftarrow>P. \<Sum>row\<leftarrow>R plane. mset (?B k row))
      = (\<Sum>plane\<leftarrow>P. \<Sum>row\<leftarrow>R plane. mset (take (n * S) row))"
    for P :: "'a list list list" and R :: "'a list list \<Rightarrow> 'a list list"
  proof -
    have "(\<Sum>k\<leftarrow>[0..<n]. \<Sum>plane\<leftarrow>P. \<Sum>row\<leftarrow>R plane. mset (?B k row))
        = (\<Sum>plane\<leftarrow>P. \<Sum>k\<leftarrow>[0..<n]. \<Sum>row\<leftarrow>R plane. mset (?B k row))"
      by (rule sum_list_swap)
    also have "\<dots> = (\<Sum>plane\<leftarrow>P. \<Sum>row\<leftarrow>R plane. \<Sum>k\<leftarrow>[0..<n]. mset (?B k row))"
      by (simp only: sum_list_swap[of _ "[0..<n]"])
    also have "\<dots> = (\<Sum>plane\<leftarrow>P. \<Sum>row\<leftarrow>R plane. mset (take (n * S) row))"
    proof -
      have "(\<Sum>k\<leftarrow>[0..<n]. mset (?B k row)) = mset (take (n * S) row)" for row :: "'a list"
      proof -
        have "mset (take (n * S) row) = mset (concat (map (\<lambda>k. ?B k row) [0..<n]))"
          by (simp only: blocks_concat)
        also have "\<dots> = (\<Sum>k\<leftarrow>[0..<n]. mset (?B k row))"
          by (simp only: mset_concat map_map comp_def)
        finally show ?thesis by simp
      qed
      then show ?thesis by simp
    qed
    finally show ?thesis .
  qed
  have middle: "(\<Sum>j\<leftarrow>[0..<n]. \<Sum>plane\<leftarrow>P. \<Sum>row\<leftarrow>?B j plane. G row)
      = (\<Sum>plane\<leftarrow>P. \<Sum>row\<leftarrow>take (n * S) plane. G row)"
    for P :: "'a list list list" and G :: "'a list \<Rightarrow> 'a multiset"
  proof -
    have "(\<Sum>j\<leftarrow>[0..<n]. \<Sum>plane\<leftarrow>P. \<Sum>row\<leftarrow>?B j plane. G row)
        = (\<Sum>plane\<leftarrow>P. \<Sum>j\<leftarrow>[0..<n]. \<Sum>row\<leftarrow>?B j plane. G row)"
      by (rule sum_list_swap)
    then show ?thesis by (simp only: sum_list_blocks)
  qed
  have "(\<Sum>i\<leftarrow>[0..<n]. \<Sum>j\<leftarrow>[0..<n]. \<Sum>k\<leftarrow>[0..<n]. mset (flatten (sub_universe x (int S) i j k)))
      = (\<Sum>i\<leftarrow>[0..<n]. \<Sum>j\<leftarrow>[0..<n]. \<Sum>plane\<leftarrow>?B i x. \<Sum>row\<leftarrow>?B j plane. mset (take (n * S) row))"
    by (simp only: mset_flatten_sub_universe inner)
  also have "\<dots> = (\<Sum>i\<leftarrow>[0..<n]. \<Sum>plane\<leftarrow>?B i x. \<Sum>row\<leftarrow>take (n * S) plane. mset (take (n * S) row))"
    by (simp only: middle)
  also have "\<dots> = (\<Sum>plane\<leftarrow>take (n * S) x. \<Sum>row\<leftarrow>take (n * S) plane. mset (take (n * S) row))"
    by (simp only: sum_list_blocks)
  also have "\<dots> = mset (flatten (slice3 x 0 (int (n * S)) 0 (int (n * S)) 0 (int (n * S))))"
    unfolding slice3_prefix mset_flatten by (simp add: comp_def)
  finally show ?thesis .
qed

lemma slice3_whole:
  assumes "has_shape x E E E"
  shows "slice3 x 0 (int E) 0 (int E) 0 (int E) = x"
proof -
  have lx: "length x = E" and lp: "\<And>p. p \<in> set x \<Longrightarrow> length p = E"
    and lr: "\<And>p r. p \<in> set x \<Longrightarrow> r \<in> set p \<Longrightarrow> length r = E"
    using assms by (auto simp: has_shape_def)
  have rows: "map (take E) p = p" if "p \<in> set x" for p
    using lr[OF that] by (simp add: map_idI)
  have "map (\<lambda>plane. map (take E) (take E plane)) x = x"
    using lp rows by (simp add: map_idI)
  then show ?thesis unfolding slice3_prefix using lx by simp
qed

lemma split_universe_cells:
  assumes "sz \<noteq> 0" and "split_universe x sz = Inr cubes"
  shows "mset (concat (map flatten cubes)) =
     (\<Sum>i\<leftarrow>[0..<nat (int (length x) div sz)]. \<Sum>j\<leftarrow>[0..<nat (int (length x) div sz)].
        \<Sum>k\<leftarrow>[0..<nat (int (length x) div sz)]. mset (flatten (sub_universe x sz i j k)))"
proof -
  have c: "cubes = concat (map (\<lambda>i. concat (map (\<lambda>j. map (\<lambda>k. sub_universe x sz i j k)
       [0..<nat (int (length x) div sz)]) [0..<nat (int (length x) div sz)]))
       [0..<nat (int (length x) div sz)])"
    using split_universe_blocks[OF assms(1), of x] assms(2) by simp
  have "mset (concat (map flatten cubes)) = (\<Sum>c\<leftarrow>cubes. mset (flatten c))"
    by (simp add: mset_concat comp_def)
  also have "\<dots> = (\<Sum>i\<leftarrow>[0..<nat (int (length x) div sz)]. \<Sum>j\<leftarrow>[0..<nat (int (length x) div sz)].
        \<Sum>k\<leftarrow>[0..<nat (int (length x) div sz)]. mset (flatten (sub_universe x sz i j k)))"
    unfolding c by (simp add: sum_list_map_concat comp_def)
  finally show ?thesis .
qed

lemma split_universe_members:
  assumes "sz \<noteq> 0" and "split_universe x sz = Inr cubes" and "c \<in> set cubes"
  shows "\<exists>i < nat (int (length x) div sz). \<exists>j < nat (int (length x) div sz).
           \<exists>k < nat (int (length x) div sz). c = sub_universe x sz i j k"
proof -
  have "cubes = concat (map (\<lambda>i. concat (map (\<lambda>j. map (\<lambda>k. sub_universe x sz i j k)
       [0..<nat (int (length x) div sz)]) [0..<nat (int (length x) div sz)]))
       [0..<nat (int (length x) div sz)])"
    using split_universe_blocks[OF assms(1), of x] assms(2) by simp
  with assms(3) show ?thesis by auto blast
qed

text \<open>
  Claim C1. For a volume of edge \<open>E\<close> and a positive sample size \<open>S\<close>, the generator raises
  nothing and yields \<open>(E div S) ^ 3\<close> arrays, each of shape \<open>(S, S, S)\<close>. The cell
  \<open>(a, b, c)\<close> of the array of the loop indices \<open>(i, j, k)\<close> is the cell
  \<open>(i * S + a, j * S + b, k * S + c)\<close> of the volume. Taken together, the cells of the yielded
  arrays are the cells of \<open>x[0:n*S, 0:n*S, 0:n*S]\<close> with \<open>n = E div S\<close>, each as often as it
  occurs there: what lies beyond \<open>n * S\<close> on an axis is in no array, and when \<open>S\<close> divides
  \<open>E\<close> the arrays hold every cell of the volume once.
\<close>

theorem split_universe_partition:
  assumes "has_shape x E E E" and "0 < S"
  shows "\<exists>cubes. split_universe x (int S) = Inr cubes \<and>
     length cubes = (E div S) ^ 3 \<and>
     (\<forall>c \<in> set cubes. has_shape c S S S) \<and>
     (\<forall>i < E div S. \<forall>j < E div S. \<forall>k < E div S. \<forall>a < S. \<forall>b < S. \<forall>c < S.
        cubes ! ((i * (E div S) + j) * (E div S) + k) ! a ! b ! c
          = x ! (i * S + a) ! (j * S + b) ! (k * S + c)) \<and>
     mset (concat (map flatten cubes)) =
       mset (flatten (slice3 x 0 (int (E div S * S)) 0 (int (E div S * S)) 0 (int (E div S * S)))) \<and>
     (S dvd E \<longrightarrow> mset (concat (map flatten cubes)) = mset (flatten x))"
proof -
  have sz: "int S \<noteq> 0" using assms(2) by simp
  have lx: "length x = E" using assms(1) by (simp add: has_shape_def)
  have n: "nat (int (length x) div int S) = E div S"
    by (simp add: lx zdiv_int[symmetric])
  from split_universe_length[OF sz refl, of x] obtain cubes where
    eq: "split_universe x (int S) = Inr cubes" and
    len: "length cubes = E div S * (E div S) * (E div S)" and
    nth: "\<And>i j k. i < E div S \<Longrightarrow> j < E div S \<Longrightarrow> k < E div S \<Longrightarrow>
      cubes ! ((i * (E div S) + j) * (E div S) + k) = sub_universe x (int S) i j k"
    unfolding n by blast
  have shape: "has_shape c S S S" if "c \<in> set cubes" for c
    using split_universe_members[OF sz eq that] sub_universe_shape[OF assms(1)]
    unfolding n by blast
  have cell: "cubes ! ((i * (E div S) + j) * (E div S) + k) ! a ! b ! c
          = x ! (i * S + a) ! (j * S + b) ! (k * S + c)"
    if "i < E div S" "j < E div S" "k < E div S" "a < S" "b < S" "c < S" for i j k a b c
    using nth[OF that(1,2,3)] sub_universe_cell[OF assms(1) that] by simp
  have cover: "mset (concat (map flatten cubes)) =
       mset (flatten (slice3 x 0 (int (E div S * S)) 0 (int (E div S * S)) 0 (int (E div S * S))))"
    using split_universe_cells[OF sz eq] mset_sub_universes[where n = "E div S" and x = x and S = S]
    unfolding n by simp
  have whole: "mset (concat (map flatten cubes)) = mset (flatten x)" if "S dvd E"
  proof -
    have "E div S * S = E" using that by simp
    then show ?thesis using cover slice3_whole[OF assms(1)] by simp
  qed
  show ?thesis
    using eq len shape cell cover whole by (simp add: power3_eq_cube)
qed

theorem split_universe_partition_witness:
  "has_shape [[[1, 2], [3, 4]], [[5, 6], [7, 8::nat]]] 2 2 2 \<and> (0::nat) < 1 \<and> (1::nat) dvd 2 \<and>
   (\<exists>cubes. split_universe [[[1, 2], [3, 4]], [[5, 6], [7, 8::nat]]] (int 1) = Inr cubes \<and>
      length cubes = 8 \<and>
      cubes ! 5 ! 0 ! 0 ! 0 = 6 \<and>
      mset (concat (map flatten cubes)) = mset [1, 2, 3, 4, 5, 6, 7, 8])"
proof -
  have h: "has_shape [[[1, 2], [3, 4]], [[5, 6], [7, 8::nat]]] 2 2 2"
    by (simp add: has_shape_def)
  have s: "(0::nat) < 1" by simp
  from split_universe_partition[OF h s] obtain cubes where
    a: "split_universe [[[1, 2], [3, 4]], [[5, 6], [7, 8::nat]]] (int 1) = Inr cubes" and
    b: "length cubes = (2 div 1) ^ 3" and
    c: "\<forall>i < 2 div 1. \<forall>j < 2 div 1. \<forall>k < 2 div 1. \<forall>a < 1. \<forall>b < 1. \<forall>c < 1.
        cubes ! ((i * (2 div 1) + j) * (2 div 1) + k) ! a ! b ! c
          = [[[1, 2], [3, 4]], [[5, 6], [7, 8::nat]]] ! (i * 1 + a) ! (j * 1 + b) ! (k * 1 + c)" and
    d: "(1::nat) dvd 2 \<longrightarrow> mset (concat (map flatten cubes))
          = mset (flatten [[[1, 2], [3, 4]], [[5, 6], [7, 8::nat]]])"
    by blast
  have c5: "cubes ! 5 ! 0 ! 0 ! 0 = 6"
    using c[rule_format, of 1 0 1 0 0 0] by simp
  show ?thesis
    using h a b c5 d by (auto simp: flatten_def)
qed

section \<open>Reading a record file back\<close>

lemma length_le_bytes: "length (le_bytes k n) = k"
  by (induction k arbitrary: n) simp_all

lemma le_value_le_bytes: "n < 256 ^ k \<Longrightarrow> le_value (le_bytes k n) = n"
proof (induction k arbitrary: n)
  case 0
  then show ?case by simp
next
  case (Suc k)
  have "n div 256 < 256 ^ k" using Suc.prems by (simp add: less_mult_imp_div_less mult.commute)
  from Suc.IH[OF this] have "le_value (le_bytes k (n div 256)) = n div 256" .
  moreover have "unat (of_nat (n mod 256) :: byte) = n mod 256"
    by (simp add: unat_of_nat)
  ultimately show ?case by simp
qed

lemma le32_value: "of_nat (le_value (le32 v)) = v"
proof -
  have "unat v < 2 ^ 32" using unsigned_less[of v] by simp
  then have "unat v < 256 ^ 4" by simp
  then show ?thesis by (simp add: le32_def le_value_le_bytes)
qed

lemma le32_four: "\<exists>a b c d. le32 v = [a, b, c, d]"
proof -
  have "length (le32 v) = Suc (Suc (Suc (Suc 0)))"
    by (simp add: le32_def length_le_bytes)
  then show ?thesis by (auto simp: length_Suc_conv)
qed

lemma unpack_floats_le32: "unpack_floats (concat (map le32 vs)) = Some vs"
proof (induction vs)
  case Nil
  show ?case by simp
next
  case (Cons v vs)
  obtain a b c d where q: "le32 v = [a, b, c, d]" using le32_four by blast
  have "of_nat (le_value [a, b, c, d]) = v" using le32_value[of v] by (simp only: q)
  then show ?case using Cons by (simp add: q)
qed

lemma decode_varint_varint: "decode_varint (varint n @ rest) = Some (n, rest)"
proof (induction n rule: varint.induct)
  case (1 n)
  show ?case
  proof (cases "n < 128")
    case True
    then have u: "unat (of_nat n :: byte) = n" by (simp add: unat_of_nat)
    have "(of_nat n :: byte) < 128"
      using True u by (simp add: word_less_nat_alt)
    then show ?thesis using True u by (subst varint.simps) simp
  next
    case False
    define c :: byte where "c = of_nat (128 + n mod 128)"
    have b: "128 + n mod 128 < 256" using mod_less_divisor[of 128 n] by linarith
    have "unat c = (128 + n mod 128) mod 2 ^ LENGTH(8)"
      unfolding c_def by (rule unat_of_nat)
    with b have u: "unat c = 128 + n mod 128" by simp
    then have nl: "\<not> c < 128" by (simp add: word_less_nat_alt)
    have v: "varint n = c # varint (n div 128)"
      using False by (subst varint.simps) (simp add: c_def)
    have "unat c - 128 + 128 * (n div 128) = n" unfolding u by simp
    then show ?thesis
      unfolding v using "1.IH"[OF False] nl by simp
  qed
qed

lemma parse_fields_Nil: "parse_fields [] = Some []"
  by (subst parse_fields.simps) simp

lemma varint_not_Nil: "varint n \<noteq> []"
  by (subst varint.simps) simp

lemma parse_fields_field:
  "parse_fields (field_bytes num payload @ rest) =
     (case parse_fields rest of None \<Rightarrow> None | Some fs \<Rightarrow> Some ((num, payload) # fs))"
proof -
  define tag where "tag = 8 * num + 2"
  define r1 where "r1 = varint (length payload) @ payload @ rest"
  define bs where "bs = field_bytes num payload @ rest"
  have ne: "bs \<noteq> []"
    by (simp add: bs_def field_bytes_def varint_not_Nil)
  have d1: "decode_varint bs = Some (tag, r1)"
    unfolding bs_def field_bytes_def tag_def r1_def
    using decode_varint_varint[of "8 * num + 2"] by simp
  have d2: "decode_varint r1 = Some (length payload, payload @ rest)"
    unfolding r1_def by (rule decode_varint_varint)
  have m: "tag mod 8 = 2" "tag div 8 = num" unfolding tag_def by arith+
  have "parse_fields bs =
     (case parse_fields rest of None \<Rightarrow> None | Some fs \<Rightarrow> Some ((num, payload) # fs))"
    by (subst parse_fields.simps) (simp add: ne d1 d2 m split: option.splits)
  then show ?thesis by (simp only: bs_def)
qed

lemma read_tfrecord_tfrecord:
  assumes "length data < 2 ^ 64"
  shows "read_tfrecord (tfrecord data) = Some data"
proof -
  define h where "h = le64 (of_nat (length data))"
  define c1 where "c1 = le32 (masked_crc h)"
  define c2 where "c2 = le32 (masked_crc data)"
  have lh: "length h = 8" by (simp add: h_def le64_def length_le_bytes)
  have lc: "length c1 = 4" "length c2 = 4" by (simp_all add: c1_def c2_def le32_def length_le_bytes)
  have "unat (of_nat (length data) :: 64 word) = length data"
    using assms by (simp add: unat_of_nat)
  moreover have "length data < 256 ^ 8" using assms by simp
  ultimately have v: "le_value h = length data"
    by (simp add: h_def le64_def le_value_le_bytes)
  have t: "tfrecord data = h @ c1 @ data @ c2"
    by (simp add: tfrecord_def Let_def h_def c1_def c2_def)
  have a: "take 8 (h @ c1 @ data @ c2) = h" using lh by simp
  have b: "take 4 (drop 8 (h @ c1 @ data @ c2)) = c1" using lh lc by simp
  have c: "take (length data) (drop 12 (h @ c1 @ data @ c2)) = data" using lh lc by simp
  have d: "take 4 (drop (12 + length data) (h @ c1 @ data @ c2)) = c2" using lh lc by simp
  have l: "length (h @ c1 @ data @ c2) = 12 + length data + 4" using lh lc by simp
  have "read_tfrecord (h @ c1 @ data @ c2) = Some data"
    unfolding read_tfrecord_def Let_def a v b c d l
    by (simp add: c1_def c2_def)
  then show ?thesis by (simp only: t)
qed

lemma those_map_Some: "those (map Some xs) = Some xs"
  by (induction xs) simp_all

lemma parse_float_list_bytes: "parse_float_list (float_list_bytes vs) = Some vs"
proof (cases "vs = []")
  case True
  then show ?thesis
    by (simp add: parse_float_list_def float_list_bytes_def parse_fields_Nil)
next
  case False
  have "parse_fields (field_bytes 1 (concat (map le32 vs)) @ []) = Some [(1, concat (map le32 vs))]"
    by (simp only: parse_fields_field parse_fields_Nil option.case)
  then show ?thesis
    using False by (simp add: parse_float_list_def float_list_bytes_def unpack_floats_le32)
qed

lemma parse_feature_bytes: "parse_feature (feature_bytes vs) = Some vs"
proof -
  have "parse_fields (field_bytes 2 (float_list_bytes vs) @ []) = Some [(2, float_list_bytes vs)]"
    by (simp only: parse_fields_field parse_fields_Nil option.case)
  then show ?thesis
    by (simp add: parse_feature_def feature_bytes_def parse_float_list_bytes)
qed

lemma parse_map_entry_bytes:
  "parse_fields (map_entry_bytes key vs @ rest) =
     (case parse_fields rest of
        None \<Rightarrow> None
      | Some fs \<Rightarrow>
          Some ((1, field_bytes 1 (utf8 key) @ field_bytes 2 (feature_bytes vs)) # fs))"
  unfolding map_entry_bytes_def by (rule parse_fields_field)

lemma parse_map_entry_payload:
  "parse_map_entry (field_bytes 1 (utf8 key) @ field_bytes 2 (feature_bytes vs))
     = Some (utf8 key, vs)"
proof -
  have "parse_fields (field_bytes 2 (feature_bytes vs) @ []) = Some [(2, feature_bytes vs)]"
    by (simp only: parse_fields_field parse_fields_Nil option.case)
  then have "parse_fields (field_bytes 1 (utf8 key) @ field_bytes 2 (feature_bytes vs))
      = Some [(1, utf8 key), (2, feature_bytes vs)]"
    by (simp add: parse_fields_field)
  then show ?thesis
    by (simp add: parse_map_entry_def parse_feature_bytes)
qed

lemma parse_example_bytes:
  "parse_example (example_bytes x_first e) =
     Some (if x_first then [(utf8 ''x'', feature_x e), (utf8 ''y'', feature_y e)]
           else [(utf8 ''y'', feature_y e), (utf8 ''x'', feature_x e)])"
proof -
  define px where "px = field_bytes 1 (utf8 ''x'') @ field_bytes 2 (feature_bytes (feature_x e))"
  define py where "py = field_bytes 1 (utf8 ''y'') @ field_bytes 2 (feature_bytes (feature_y e))"
  define body where "body = (if x_first then map_entry_bytes ''x'' (feature_x e) @ map_entry_bytes ''y'' (feature_y e)
      else map_entry_bytes ''y'' (feature_y e) @ map_entry_bytes ''x'' (feature_x e))"
  have ex: "parse_map_entry px = Some (utf8 ''x'', feature_x e)"
    and ey: "parse_map_entry py = Some (utf8 ''y'', feature_y e)"
    unfolding px_def py_def by (rule parse_map_entry_payload)+
  have one: "parse_fields (map_entry_bytes k vs) = Some [(1, field_bytes 1 (utf8 k) @ field_bytes 2 (feature_bytes vs))]"
    for k vs
    using parse_map_entry_bytes[of k vs "[]"] by (simp add: parse_fields_Nil)
  have inner: "parse_fields body = Some (if x_first then [(1, px), (1, py)] else [(1, py), (1, px)])"
    unfolding body_def px_def py_def by (simp add: parse_map_entry_bytes one)
  have outer: "parse_fields (example_bytes x_first e) = Some [(1, body)]"
  proof -
    have "example_bytes x_first e = field_bytes 1 body @ []"
      by (simp add: example_bytes_def body_def Let_def)
    then show ?thesis
      by (simp only: parse_fields_field parse_fields_Nil option.case)
  qed
  show ?thesis
    unfolding parse_example_def outer using inner ex ey by simp
qed

lemma float_values_entries:
  "float_values (if b then [(utf8 ''x'', vx), (utf8 ''y'', vy)]
                 else [(utf8 ''y'', vy), (utf8 ''x'', vx)]) ''x'' = vx"
  "float_values (if b then [(utf8 ''x'', vx), (utf8 ''y'', vy)]
                 else [(utf8 ''y'', vy), (utf8 ''x'', vx)]) ''y'' = vy"
  by (simp_all add: float_values_def utf8_def)

lemma read_example_tfrecord:
  assumes "length (example_bytes x_first e) \<le> 2147483647"
  shows "read_example (tfrecord (example_bytes x_first e)) =
     Some (if x_first then [(utf8 ''x'', feature_x e), (utf8 ''y'', feature_y e)]
           else [(utf8 ''y'', feature_y e), (utf8 ''x'', feature_x e)])"
proof -
  have "length (example_bytes x_first e) < 2 ^ 64" using assms by simp
  then show ?thesis
    by (simp add: read_example_def read_tfrecord_tfrecord parse_example_bytes)
qed

section \<open>What process_file writes\<close>

lemma split_universe_negative:
  assumes "sz < 0"
  shows "split_universe x sz = Inr []"
proof -
  have "int (length x) div sz \<le> 0"
    using assms by (simp add: div_nonneg_neg_le0)
  then have "py_range (int (length x) div sz) = []"
    by (simp add: py_range_def)
  then show ?thesis using assms by (simp add: split_universe_def)
qed





lemma outputs_single: "m(n \<mapsto> b) = m ++ [n \<mapsto> b]"
  by simp



lemma length_varint: "0 < k \<Longrightarrow> n < 128 ^ k \<Longrightarrow> length (varint n) \<le> k"
proof (induction k arbitrary: n)
  case 0
  then show ?case by simp
next
  case (Suc k)
  show ?case
  proof (cases "n < 128")
    case True
    then show ?thesis by (subst varint.simps) simp
  next
    case False
    then have k: "0 < k" using Suc.prems(2) by (cases k) simp_all
    have "n div 128 < 128 ^ k"
      using Suc.prems(2) by (simp add: less_mult_imp_div_less mult.commute)
    from Suc.IH[OF k this] False show ?thesis by (subst varint.simps) simp
  qed
qed

lemma length_field_bytes:
  assumes "num \<le> 15" and "length payload < 128 ^ 5"
  shows "length (field_bytes num payload) \<le> length payload + 6"
proof -
  have "8 * num + 2 < 128 ^ 1" using assms(1) by simp
  then have "length (varint (8 * num + 2)) \<le> 1" by (intro length_varint) simp_all
  moreover have "length (varint (length payload)) \<le> 5"
    using assms(2) by (intro length_varint) simp_all
  ultimately show ?thesis by (simp add: field_bytes_def)
qed

lemma length_floats: "length (concat (map le32 vs)) = 4 * length vs"
  by (induction vs) (simp_all add: le32_def length_le_bytes)

lemma length_map_entry_bytes:
  assumes "length vs \<le> 500000000"
  shows "length (map_entry_bytes [c] vs) \<le> 4 * length vs + 31"
proof -
  have big: "(128::nat) ^ 5 = 34359738368" by simp
  have f0: "length (float_list_bytes vs) \<le> 4 * length vs + 6"
  proof (cases "vs = []")
    case True
    then show ?thesis by (simp add: float_list_bytes_def)
  next
    case False
    have "length (concat (map le32 vs)) < 128 ^ 5"
      using assms unfolding length_floats big by simp
    from length_field_bytes[OF _ this, of 1] False show ?thesis
      by (simp add: float_list_bytes_def length_floats)
  qed
  have "length (float_list_bytes vs) < 128 ^ 5" using f0 assms unfolding big by simp
  from length_field_bytes[OF _ this, of 2] f0
  have f1: "length (feature_bytes vs) \<le> 4 * length vs + 12"
    by (simp add: feature_bytes_def)
  have "length (feature_bytes vs) < 128 ^ 5" using f1 assms unfolding big by simp
  from length_field_bytes[OF _ this, of 2] f1
  have f2: "length (field_bytes 2 (feature_bytes vs)) \<le> 4 * length vs + 18" by simp
  have "length (utf8 [c]) < 128 ^ 5" unfolding big by (simp add: utf8_def)
  from length_field_bytes[OF _ this, of 1]
  have f3: "length (field_bytes 1 (utf8 [c])) \<le> 7" by (simp add: utf8_def)
  have "length (field_bytes 1 (utf8 [c]) @ field_bytes 2 (feature_bytes vs)) < 128 ^ 5"
    using f2 f3 assms unfolding big by simp
  from length_field_bytes[OF _ this, of 1] f2 f3 show ?thesis
    by (simp add: map_entry_bytes_def)
qed

lemma length_example_bytes:
  assumes "length (feature_x e) + length (feature_y e) \<le> 500000000"
  shows "length (example_bytes x_first e) \<le> 2147483647"
proof -
  have big: "(128::nat) ^ 5 = 34359738368" by simp
  have x: "length (map_entry_bytes ''x'' (feature_x e)) \<le> 4 * length (feature_x e) + 31"
    and y: "length (map_entry_bytes ''y'' (feature_y e)) \<le> 4 * length (feature_y e) + 31"
    using assms by (simp_all add: length_map_entry_bytes)
  define body where "body = (if x_first
      then map_entry_bytes ''x'' (feature_x e) @ map_entry_bytes ''y'' (feature_y e)
      else map_entry_bytes ''y'' (feature_y e) @ map_entry_bytes ''x'' (feature_x e))"
  have b: "length body \<le> 4 * (length (feature_x e) + length (feature_y e)) + 62"
    using x y by (simp add: body_def)
  then have "length body < 128 ^ 5" using assms unfolding big by simp
  from length_field_bytes[OF _ this, of 1] b assms
  have "length (field_bytes 1 body) \<le> 2147483647" by simp
  then show ?thesis by (simp add: example_bytes_def body_def Let_def)
qed

lemma write_record_ok:
  assumes "writable w p" and "length (feature_x e) + length (feature_y e) \<le> 500000000"
  shows "write_record w p e =
     (Inr (), w\<lparr>outputs := (outputs w)(p \<mapsto> tfrecord (example_bytes (entry_order w e) e)),
               hdf5_files := (hdf5_files w)(p := None)\<rparr>)"
proof -
  have "\<not> 2147483647 < length (example_bytes (entry_order w e) e)"
    using length_example_bytes[OF assms(2), of "entry_order w e"] by simp
  then show ?thesis
    using assms(1) by (simp add: write_record_def SerializeToString_def Let_def)
qed

text \<open>
  Claim C8. The loop body of \<open>process_file\<close> puts the cells of the sub-volume, flattened
  with the last axis varying fastest, into the float list \<open>x\<close> and the parameter vector into
  the float list \<open>y\<close>, each cell as the single-precision number that \<open>FloatList\<close> makes of it.
  When the output file can be written and the two lists together have at most 500 million
  numbers, so that the message stays below the 2 GiB that the serialiser accepts, the write
  raises nothing, and reading the file back gives, for \<open>x\<close> and for \<open>y\<close>, exactly these
  single-precision numbers, bit for bit and in the same order, whichever of the two entries
  the serialiser has written first.
\<close>

theorem record_round_trip:
  assumes "writable w (output_file_name out input_file i)"
    and "length (flatten xi) + length y \<le> 500000000"
  shows "fst (write_sub_volumes w input_file out y [(i, xi)]) = Inr () \<and>
     (\<exists>file entries.
        outputs (snd (write_sub_volumes w input_file out y [(i, xi)]))
          (output_file_name out input_file i) = Some file \<and>
        read_example file = Some entries \<and>
        float_values entries ''x'' = map (to_float32 w) (flatten xi) \<and>
        float_values entries ''y'' = map (to_float32 w) y)"
proof -
  define e where "e = \<lparr>feature_x = map (to_float32 w) (flatten xi),
                        feature_y = map (to_float32 w) y\<rparr>"
  define p where "p = output_file_name out input_file i"
  have sz: "length (feature_x e) + length (feature_y e) \<le> 500000000"
    using assms(2) by (simp add: e_def)
  have wr: "write_record w p e =
     (Inr (), w\<lparr>outputs := (outputs w)(p \<mapsto> tfrecord (example_bytes (entry_order w e) e)),
               hdf5_files := (hdf5_files w)(p := None)\<rparr>)"
    using assms(1) sz unfolding p_def by (rule write_record_ok)
  have run: "write_sub_volumes w input_file out y [(i, xi)] =
     (Inr (), w\<lparr>outputs := (outputs w)(p \<mapsto> tfrecord (example_bytes (entry_order w e) e)),
               hdf5_files := (hdf5_files w)(p := None)\<rparr>)"
    using wr by (simp add: e_def p_def)
  have rd: "read_example (tfrecord (example_bytes (entry_order w e) e)) =
     Some (if entry_order w e then [(utf8 ''x'', feature_x e), (utf8 ''y'', feature_y e)]
           else [(utf8 ''y'', feature_y e), (utf8 ''x'', feature_x e)])"
    by (rule read_example_tfrecord) (rule length_example_bytes[OF sz])
  have fx: "feature_x e = map (to_float32 w) (flatten xi)"
    and fy: "feature_y e = map (to_float32 w) y"
    by (simp_all add: e_def)
  show ?thesis
    unfolding run p_def[symmetric]
    using rd float_values_entries[of "entry_order w e" "feature_x e" "feature_y e"] fx fy
    by simp
qed

lemma demo_names:
  "output_file_name ''out'' ''in/a.hdf5'' 0 = ''out/a_000.tfrecord''"
  "output_file_name ''out'' ''in/a.hdf5'' 1 = ''out/a_001.tfrecord''"
  by code_simp+

theorem record_round_trip_witness:
  "writable demo_world (output_file_name ''out'' ''in/a.hdf5'' 0) \<and>
   fst (write_sub_volumes demo_world ''in/a.hdf5'' ''out'' [0x41A80000, 0x41B00000]
          [(0, [[[0x41300000, 0x41400000], [0x41500000, 0x41600000]],
                [[0x41700000, 0x41800000], [0x41880000, 0x41900000]]])]) = Inr () \<and>
   (\<exists>file entries.
      outputs (snd (write_sub_volumes demo_world ''in/a.hdf5'' ''out'' [0x41A80000, 0x41B00000]
          [(0, [[[0x41300000, 0x41400000], [0x41500000, 0x41600000]],
                [[0x41700000, 0x41800000], [0x41880000, 0x41900000]]])]))
        ''out/a_000.tfrecord'' = Some file \<and>
      read_example file = Some entries \<and>
      float_values entries ''x'' =
        [0x41300000, 0x41400000, 0x41500000, 0x41600000,
         0x41700000, 0x41800000, 0x41880000, 0x41900000] \<and>
      float_values entries ''y'' = [0x41A80000, 0x41B00000])"
proof -
  have w: "writable demo_world (output_file_name ''out'' ''in/a.hdf5'' 0)"
    by (simp add: demo_world_def)
  have s: "length (flatten [[[0x41300000, 0x41400000], [0x41500000, 0x41600000]],
                [[0x41700000, 0x41800000], [0x41880000, 0x41900000 :: float32]]])
      + length [0x41A80000, 0x41B00000 :: float32] \<le> 500000000"
    by (simp add: flatten_def)
  have t: "to_float32 demo_world = (\<lambda>v. v)" by (simp add: demo_world_def)
  show ?thesis
    using record_round_trip[OF w s] w
    by (simp add: demo_names t flatten_def)
qed

lemma demo_split:
  "split_universe [[[0x41300000, 0x41400000], [0x41500000, 0x41600000]],
                   [[0x41700000, 0x41800000], [0x41880000, 0x41900000 :: float32]]] 2
     = Inr [[[[0x41300000, 0x41400000], [0x41500000, 0x41600000]],
             [[0x41700000, 0x41800000], [0x41880000, 0x41900000]]]]"
  by code_simp






text \<open>
  Claim C10. For a volume with a positive edge and a negative sample size the generator
  yields nothing, and \<open>process_file\<close> reads the source file, returns without an exception
  and leaves the output directory as it was.
\<close>

theorem negative_sample_size_no_output:
  assumes "hdf5_files w input_file = Some f" and "full f = Some x" and "unitPar f = Some y"
    and "0 < length x" and "ssz < 0"
  shows "split_universe x ssz = Inr [] \<and>
     process_file w input_file out ssz = (Inr (), w\<lparr>reads := reads w @ [input_file]\<rparr>) \<and>
     outputs (snd (process_file w input_file out ssz)) = outputs w"
  using assms split_universe_negative[of ssz x]
  by (simp add: process_file_def read_hdf5_def enumerate_eq_zip)

theorem negative_sample_size_no_output_witness:
  "hdf5_files demo_world ''in/a.hdf5'' = Some demo_file \<and>
   full demo_file = Some [[[0x41300000, 0x41400000], [0x41500000, 0x41600000]],
                          [[0x41700000, 0x41800000], [0x41880000, 0x41900000]]] \<and>
   unitPar demo_file = Some [0x41A80000, 0x41B00000] \<and>
   split_universe [[[0x41300000, 0x41400000], [0x41500000, 0x41600000]],
                   [[0x41700000, 0x41800000], [0x41880000, 0x41900000 :: float32]]] (- 1)
     = Inr [] \<and>
   process_file demo_world ''in/a.hdf5'' ''out'' (- 1)
     = (Inr (), demo_world\<lparr>reads := [''in/a.hdf5'']\<rparr>) \<and>
   outputs (snd (process_file demo_world ''in/a.hdf5'' ''out'' (- 1))) = Map.empty"
proof -
  have h: "hdf5_files demo_world ''in/a.hdf5'' = Some demo_file"
    "full demo_file = Some [[[0x41300000, 0x41400000], [0x41500000, 0x41600000]],
                          [[0x41700000, 0x41800000], [0x41880000, 0x41900000]]]"
    "unitPar demo_file = Some [0x41A80000, 0x41B00000]"
    by (simp_all add: demo_world_def demo_file_def)
  have "reads demo_world = []" "outputs demo_world = Map.empty"
    by (simp_all add: demo_world_def)
  then show ?thesis
    using h negative_sample_size_no_output[OF h, of "- 1" "''out''"] by simp
qed

lemma demo_name_in_output_directory:
  "output_file_name ''out'' ''out/ahdf5'' 0 = ''out/ahdf5''"
  by code_simp

text \<open>
  A run whose output file is its own source file: with the source at \<open>out/ahdf5\<close> and the
  output directory \<open>out\<close>, the first run replaces the source file by its record, and a
  second run cannot open it any more.
\<close>

lemma overwritten_source:
  "fst (process_file demo_world4 ''out/ahdf5'' ''out'' 2) = Inr () \<and>
   hdf5_files (snd (process_file demo_world4 ''out/ahdf5'' ''out'' 2)) ''out/ahdf5'' = None \<and>
   fst (process_file (snd (process_file demo_world4 ''out/ahdf5'' ''out'' 2))
          ''out/ahdf5'' ''out'' 2) = Inl OSError"
proof -
  let ?w = "demo_world4\<lparr>reads := [''out/ahdf5'']\<rparr>"
  let ?e = "\<lparr>feature_x = [0x41300000, 0x41400000, 0x41500000, 0x41600000,
                           0x41700000, 0x41800000, 0x41880000, 0x41900000],
               feature_y = [0x41A80000, 0x41B00000 :: float32]\<rparr>"
  have wr: "write_record ?w ''out/ahdf5'' ?e =
     (Inr (), ?w\<lparr>outputs := (outputs ?w)(''out/ahdf5'' \<mapsto>
                   tfrecord (example_bytes (entry_order ?w ?e) ?e)),
               hdf5_files := (hdf5_files ?w)(''out/ahdf5'' := None)\<rparr>)"
    by (rule write_record_ok) (simp_all add: demo_world4_def demo_world_def)
  have first: "process_file demo_world4 ''out/ahdf5'' ''out'' 2 =
     (Inr (), ?w\<lparr>outputs := (outputs ?w)(''out/ahdf5'' \<mapsto>
                   tfrecord (example_bytes (entry_order ?w ?e) ?e)),
               hdf5_files := (hdf5_files ?w)(''out/ahdf5'' := None)\<rparr>)"
    using wr
    by (simp add: process_file_def read_hdf5_def demo_world4_def demo_world_def demo_file_def
        demo_split enumerate_eq_zip demo_name_in_output_directory flatten_def)
  show ?thesis
    unfolding first by (simp add: process_file_def read_hdf5_def)
qed

section \<open>What find_files returns\<close>

lemma is_dir_iff: "is_dir node \<longleftrightarrow> (\<exists>sub. node = Dir sub)"
  by (cases node) simp_all

lemma not_is_dir_iff: "\<not> is_dir node \<longleftrightarrow> node = File"
  by (cases node) simp_all

lemma set_find_files_File: "set (find_files root File None) = {}"
  by (simp add: find_files_def)

lemma set_find_files_Dir:
  "set (find_files root (Dir entries) None) =
     {os_path_join root name | name. (name, File) \<in> set entries \<and> endswith name ''hdf5''}
     \<union> (\<Union>e \<in> {e \<in> set entries. is_dir (snd e)}.
           set (find_files (os_path_join root (fst e)) (snd e) None))"
  by (auto simp: find_files_def not_is_dir_iff image_iff)

lemma find_files_sound:
  "p \<in> set (find_files root t None) \<Longrightarrow>
     \<exists>name. (root, t, p, name) \<in> tree_files \<and> endswith name ''hdf5''"
proof (induction root t arbitrary: p rule: walk.induct)
  case (1 root)
  then show ?case by (simp add: set_find_files_File)
next
  case (2 root entries)
  from "2.prems" consider
    (here) name where "p = os_path_join root name" "(name, File) \<in> set entries"
      "endswith name ''hdf5''"
  | (below) e where "e \<in> set entries" "is_dir (snd e)"
      "p \<in> set (find_files (os_path_join root (fst e)) (snd e) None)"
    unfolding set_find_files_Dir by blast
  then show ?case
  proof cases
    case here
    then show ?thesis using tree_files.here by blast
  next
    case below
    then have "e \<in> set (filter (\<lambda>e. is_dir (snd e)) entries)" by simp
    from "2.IH"[OF this below(3)] obtain name where
      n: "(os_path_join root (fst e), snd e, p, name) \<in> tree_files" "endswith name ''hdf5''"
      by blast
    obtain sub where "snd e = Dir sub" using below(2) by (auto simp: is_dir_iff)
    then have "(fst e, Dir sub) \<in> set entries" using below(1) by (metis prod.collapse)
    with n \<open>snd e = Dir sub\<close> show ?thesis using tree_files.below by force
  qed
qed

lemma find_files_complete:
  "(root, t, p, name) \<in> tree_files \<Longrightarrow> endswith name ''hdf5'' \<Longrightarrow>
     p \<in> set (find_files root t None)"
proof (induction rule: tree_files.induct)
  case (here name entries root)
  then show ?case unfolding set_find_files_Dir by blast
next
  case (below d sub entries root p name)
  then have "p \<in> set (find_files (os_path_join root d) (Dir sub) None)" by simp
  moreover have "(d, Dir sub) \<in> {e \<in> set entries. is_dir (snd e)}" using below(1) by simp
  ultimately have "p \<in> (\<Union>e \<in> {e \<in> set entries. is_dir (snd e)}.
           set (find_files (os_path_join root (fst e)) (snd e) None))"
    by force
  then show ?case by (subst set_find_files_Dir) blast
qed

lemma find_files_cap:
  "find_files root t (Some m) = py_slice_to (find_files root t None) m"
  by (simp add: find_files_def Let_def)

lemma find_files_sorted: "sorted (find_files root t None)"
  by (simp add: find_files_def Let_def)

lemma demo_find_all:
  "find_files ''in'' demo_tree None = [''in/ahdf5'', ''in/b.hdf5'', ''in/sub/a.hdf5'']"
  by code_simp

lemma demo_find_negative:
  "find_files ''in'' demo_tree (Some (- 1)) = [''in/ahdf5'', ''in/b.hdf5'']"
  by code_simp

text \<open>
  Claim C9. With a negative cap \<open>m\<close> the result is the slice \<open>files[:m]\<close> of the sorted list
  of the discovered files: all of them but the last \<open>- m\<close>.
\<close>

theorem find_files_negative_cap:
  assumes "m < 0"
  shows "find_files root t (Some m) =
     take (length (find_files root t None) - nat (- m)) (find_files root t None)"
proof -
  have "slice_bound len m = len - nat (- m)" for len
    using assms by (simp add: slice_bound_def max_def) linarith
  then show ?thesis by (simp add: find_files_cap py_slice_to_def)
qed

theorem find_files_negative_cap_witness:
  "(- 1 :: int) < 0 \<and>
   find_files ''in'' demo_tree None = [''in/ahdf5'', ''in/b.hdf5'', ''in/sub/a.hdf5''] \<and>
   find_files ''in'' demo_tree (Some (- 1)) = [''in/ahdf5'', ''in/b.hdf5'']"
proof -
  have h: "(- 1 :: int) < 0" by simp
  show ?thesis
    using find_files_negative_cap[OF h, of "''in''" demo_tree] h
    by (simp add: demo_find_all)
qed

text \<open>
  Claim C5, for a cap that is absent or not negative. Without a cap \<open>find_files\<close> returns
  the paths of exactly those files of the tree whose name ends with \<open>hdf5\<close>, in ascending
  lexicographic order; with a cap \<open>N \<ge> 0\<close> it returns the first \<open>N\<close> entries of that list.
\<close>

theorem find_files_discovers:
  "set (find_files root t None) =
     {p. \<exists>name. (root, t, p, name) \<in> tree_files \<and> endswith name ''hdf5''} \<and>
   sorted (find_files root t None) \<and>
   (0 \<le> N \<longrightarrow> find_files root t (Some N) = take (nat N) (find_files root t None))"
proof (intro conjI impI)
  show "set (find_files root t None) =
     {p. \<exists>name. (root, t, p, name) \<in> tree_files \<and> endswith name ''hdf5''}"
    using find_files_sound find_files_complete by blast
  show "sorted (find_files root t None)" by (rule find_files_sorted)
  assume "0 \<le> N"
  then have "slice_bound len N = min (nat N) len" for len
    by (simp add: slice_bound_def min_def) linarith
  then show "find_files root t (Some N) = take (nat N) (find_files root t None)"
    by (simp add: find_files_cap py_slice_to_def min_def)
qed

theorem find_files_discovers_witness:
  "(''in/sub/a.hdf5'', ''a.hdf5'') \<in> {(p, name). (''in'', demo_tree, p, name) \<in> tree_files} \<and>
   ''in/sub/a.hdf5'' \<in> set (find_files ''in'' demo_tree None) \<and>
   ''in/notes.txt'' \<notin> set (find_files ''in'' demo_tree None) \<and>
   find_files ''in'' demo_tree (Some 2) = [''in/ahdf5'', ''in/b.hdf5'']"
proof -
  have "(os_path_join ''in'' ''sub'', Dir [(''a.hdf5'', File), (''c.h5'', File)],
          os_path_join (os_path_join ''in'' ''sub'') ''a.hdf5'', ''a.hdf5'') \<in> tree_files"
    by (rule tree_files.here) simp
  then have "(''in'', demo_tree, os_path_join (os_path_join ''in'' ''sub'') ''a.hdf5'', ''a.hdf5'')
      \<in> tree_files"
    unfolding demo_tree_def by (rule tree_files.below[rotated]) simp
  moreover have "os_path_join (os_path_join ''in'' ''sub'') ''a.hdf5'' = ''in/sub/a.hdf5''"
    by code_simp
  ultimately have t: "(''in'', demo_tree, ''in/sub/a.hdf5'', ''a.hdf5'') \<in> tree_files" by simp
  have e: "endswith ''a.hdf5'' ''hdf5''" by code_simp
  have "''in/sub/a.hdf5'' \<in> set (find_files ''in'' demo_tree None)"
    using find_files_discovers[of "''in''" demo_tree 2] t e by blast
  moreover have "find_files ''in'' demo_tree (Some 2) = [''in/ahdf5'', ''in/b.hdf5'']"
    using find_files_discovers[of "''in''" demo_tree 2] by (simp add: demo_find_all)
  moreover have "''in/notes.txt'' \<notin> set (find_files ''in'' demo_tree None)"
    by (simp add: demo_find_all)
  ultimately show ?thesis using t by simp
qed

text \<open>
  Claim C5 as it is stated, for every cap, fails at the cap \<open>-1\<close>: the result is not the
  list of the first entries up to the cap, but all entries except the last.
\<close>

theorem find_files_cap_counterexample:
  "find_files ''in'' demo_tree (Some (- 1)) \<noteq> take (nat (- 1)) (find_files ''in'' demo_tree None)"
  by (simp add: demo_find_negative)

section \<open>The chunks of the tasks\<close>

lemma cumsum_from_nth:
  "i < length vs \<Longrightarrow> cumsum_from acc vs ! i = acc + sum_list (take (Suc i) vs)"
proof (induction vs arbitrary: acc i)
  case Nil
  then show ?case by simp
next
  case (Cons v vs)
  show ?case
  proof (cases i)
    case 0
    then show ?thesis by simp
  next
    case (Suc k)
    with Cons.prems have "k < length vs" by simp
    from Cons.IH[OF this, of "acc + v"] Suc show ?thesis by (simp add: add.assoc)
  qed
qed

lemma div_points_nth:
  assumes "i \<le> length szs"
  shows "cumsum (0 # map int szs) ! i = int (sum_list (take i szs))"
proof -
  have "i < length (0 # map int szs)" using assms by simp
  from cumsum_from_nth[OF this, of 0]
  have "cumsum (0 # map int szs) ! i = sum_list (take i (map int szs))"
    by (simp add: cumsum_def)
  then show ?thesis by (simp add: take_map sum_list_of_nat)
qed

lemma segments_concat:
  "concat (map (\<lambda>i. drop (sum_list (take i szs)) (take (sum_list (take (Suc i) szs)) xs))
     [0..<length szs]) = take (sum_list szs) xs"
proof (induction szs rule: rev_induct)
  case Nil
  show ?case by simp
next
  case (snoc s szs)
  let ?F = "\<lambda>zs i. drop (sum_list (take i zs)) (take (sum_list (take (Suc i) zs)) xs)"
  have a: "map (?F (szs @ [s])) [0..<length szs] = map (?F szs) [0..<length szs]"
    by (rule map_cong) simp_all
  have b: "?F (szs @ [s]) (length szs) = drop (sum_list szs) (take (sum_list szs + s) xs)"
    by simp
  have c: "take (sum_list szs) xs @ drop (sum_list szs) (take (sum_list szs + s) xs)
      = take (sum_list szs + s) xs"
  proof -
    have "take (sum_list szs) (take (sum_list szs + s) xs) = take (sum_list szs) xs"
      by (simp add: min_def)
    then show ?thesis
      using append_take_drop_id[of "sum_list szs" "take (sum_list szs + s) xs"] by simp
  qed
  have "concat (map (?F (szs @ [s])) [0..<length (szs @ [s])])
      = concat (map (?F (szs @ [s])) [0..<length szs]) @ ?F (szs @ [s]) (length szs)"
    by simp
  also have "\<dots> = take (sum_list szs) xs @ drop (sum_list szs) (take (sum_list szs + s) xs)"
    unfolding a b snoc.IH ..
  also have "\<dots> = take (sum_list szs + s) xs" by (rule c)
  finally show ?case by simp
qed

lemma length_chunk_sizes: "0 < n \<Longrightarrow> length (chunk_sizes L n) = n"
proof -
  assume "0 < n"
  then have "L mod n \<le> n" by (simp add: less_imp_le)
  then show ?thesis by (simp add: chunk_sizes_def)
qed

lemma sum_chunk_sizes: "0 < n \<Longrightarrow> sum_list (chunk_sizes L n) = L"
proof -
  assume "0 < n"
  then have le: "L mod n \<le> n" by (simp add: less_imp_le)
  have "sum_list (chunk_sizes L n) = L mod n * (L div n + 1) + (n - L mod n) * (L div n)"
    by (simp add: chunk_sizes_def sum_list_replicate)
  also have "\<dots> = (L mod n + (n - L mod n)) * (L div n) + L mod n"
    by (simp add: algebra_simps)
  also have "\<dots> = n * (L div n) + L mod n" using le by simp
  also have "\<dots> = L" by simp
  finally show ?thesis .
qed

lemma nth_chunk_sizes:
  "i < n \<Longrightarrow> chunk_sizes L n ! i = L div n + (if i < L mod n then 1 else 0)"
  by (simp add: chunk_sizes_def nth_append)

lemma array_split_segments:
  assumes "0 < n"
  shows "array_split xs (int n) =
     Inr (map (\<lambda>i. drop (sum_list (take i (chunk_sizes (length xs) n)))
                   (take (sum_list (take (Suc i) (chunk_sizes (length xs) n))) xs)) [0..<n])"
proof -
  let ?szs = "chunk_sizes (length xs) n"
  have le: "length xs mod n \<le> n" using assms by (simp add: less_imp_le)
  have sizes: "[0] @ replicate (nat (int (length xs) mod int n)) (int (length xs) div int n + 1)
        @ replicate (nat (int n - int (length xs) mod int n)) (int (length xs) div int n)
      = 0 # map int ?szs"
  proof -
    have "nat (int n - int (length xs mod n)) = n - length xs mod n" by simp
    then show ?thesis
      by (simp add: chunk_sizes_def zdiv_int[symmetric] zmod_int[symmetric])
  qed
  have "map (\<lambda>i. py_slice xs (cumsum (0 # map int ?szs) ! i) (cumsum (0 # map int ?szs) ! (i + 1)))
          [0..<n]
      = map (\<lambda>i. drop (sum_list (take i ?szs)) (take (sum_list (take (Suc i) ?szs)) xs)) [0..<n]"
  proof (rule map_cong[OF refl])
    fix i assume "i \<in> set [0..<n]"
    then have i: "i \<le> length ?szs" "i + 1 \<le> length ?szs"
      using assms by (simp_all add: length_chunk_sizes)
    show "py_slice xs (cumsum (0 # map int ?szs) ! i) (cumsum (0 # map int ?szs) ! (i + 1))
        = drop (sum_list (take i ?szs)) (take (sum_list (take (Suc i) ?szs)) xs)"
      unfolding div_points_nth[OF i(1)] div_points_nth[OF i(2)] py_slice_nat by simp
  qed
  then show ?thesis
    using assms unfolding array_split_def Let_def sizes by simp
qed

lemma array_split_concat:
  assumes "0 < n" and "array_split xs (int n) = Inr chunks"
  shows "concat chunks = xs"
proof -
  have "chunks = map (\<lambda>i. drop (sum_list (take i (chunk_sizes (length xs) n)))
                   (take (sum_list (take (Suc i) (chunk_sizes (length xs) n))) xs))
                 [0..<length (chunk_sizes (length xs) n)]"
    using array_split_segments[OF assms(1), of xs] assms by (simp add: length_chunk_sizes)
  then have "concat chunks = take (sum_list (chunk_sizes (length xs) n)) xs"
    by (simp only: segments_concat)
  then show ?thesis using assms(1) by (simp add: sum_chunk_sizes)
qed

lemma array_split_nth_length:
  assumes "0 < n" and "array_split xs (int n) = Inr chunks" and "i < n"
  shows "length (chunks ! i) = length xs div n + (if i < length xs mod n then 1 else 0)"
proof -
  let ?szs = "chunk_sizes (length xs) n"
  have len: "length ?szs = n" using assms(1) by (rule length_chunk_sizes)
  have c: "chunks ! i = drop (sum_list (take i ?szs)) (take (sum_list (take (Suc i) ?szs)) xs)"
    using array_split_segments[OF assms(1), of xs] assms(2,3) by auto
  have step: "sum_list (take (Suc i) ?szs) = sum_list (take i ?szs) + ?szs ! i"
    using assms(3) len by (simp add: take_Suc_conv_app_nth)
  have "sum_list (take (Suc i) ?szs) \<le> sum_list ?szs"
  proof -
    have "sum_list ?szs = sum_list (take (Suc i) ?szs) + sum_list (drop (Suc i) ?szs)"
      by (metis append_take_drop_id sum_list_append)
    then show ?thesis by simp
  qed
  then have le: "sum_list (take (Suc i) ?szs) \<le> length xs"
    using assms(1) by (simp add: sum_chunk_sizes)
  have "length (chunks ! i)
      = min (length xs) (sum_list (take (Suc i) ?szs)) - sum_list (take i ?szs)"
    unfolding c by simp
  also have "\<dots> = sum_list (take (Suc i) ?szs) - sum_list (take i ?szs)"
    using le by (simp add: min_absorb2)
  also have "\<dots> = ?szs ! i" unfolding step by simp
  finally show ?thesis using assms(3) by (simp add: nth_chunk_sizes)
qed

lemma distinct_concat_nth_disjoint:
  assumes "distinct (concat xss)" and "i < j" and "j < length xss"
  shows "set (xss ! i) \<inter> set (xss ! j) = {}"
proof -
  have "xss = take j xss @ xss ! j # drop (Suc j) xss"
    using assms(3) by (rule id_take_nth_drop)
  then have "concat xss = concat (take j xss) @ xss ! j @ concat (drop (Suc j) xss)"
    by (metis concat.simps(2) concat_append)
  with assms(1) have "distinct (concat (take j xss) @ xss ! j @ concat (drop (Suc j) xss))"
    by simp
  then have "set (concat (take j xss)) \<inter> set (xss ! j) = {}"
    by auto
  moreover have "xss ! i \<in> set (take j xss)"
    using assms(2,3) by (metis in_set_conv_nth length_take min_less_iff_conj nth_take order_less_trans)
  ultimately show ?thesis by auto
qed

lemma ceil_div_nat:
  fixes L n :: nat
  assumes "0 < n"
  shows "(L + n - 1) div n = L div n + (if L mod n = 0 then 0 else 1)"
proof -
  obtain m where n: "n = Suc m" using assms by (cases n) simp_all
  define q where "q = L div n"
  define e where "e = L mod n"
  define b where "b = q * n"
  have L: "L = b + e" unfolding b_def q_def e_def by simp
  have e: "e < n" unfolding e_def using assms by simp
  show ?thesis
  proof (cases "e = 0")
    case True
    have "L + n - 1 = m + q * n" using L True n by (simp add: b_def)
    then have "(L + n - 1) div n = (m + q * n) div n" by simp
    also have "\<dots> = q + m div n" using assms by (simp only: div_mult_self1)
    also have "m div n = 0" using n by simp
    finally show ?thesis using True by (simp add: q_def e_def)
  next
    case False
    then obtain e' where e': "e = Suc e'" by (cases e) simp_all
    have "n + b = (q + 1) * n" by (simp add: b_def)
    moreover have "L + n - 1 = e' + (n + b)" using L e' n by simp
    ultimately have "L + n - 1 = e' + (q + 1) * n" by simp
    then have "(L + n - 1) div n = (e' + (q + 1) * n) div n" by simp
    also have "\<dots> = (q + 1) + e' div n" using assms by (simp only: div_mult_self1)
    also have "e' div n = 0" using e e' by simp
    finally show ?thesis using False by (simp add: q_def e_def)
  qed
qed

lemma py_index_nat: "i < length xs \<Longrightarrow> py_index xs (int i) = Inr (xs ! i)"
  by (simp add: py_index_def)

text \<open>
  Claim C4. For a list of \<open>L\<close> files and \<open>T \<ge> 1\<close> tasks, \<open>np.array_split\<close> returns \<open>T\<close>
  chunks whose concatenation, in the order of the tasks, is the list itself, so that every
  chunk is a run of consecutive files. The chunk of task \<open>i\<close> has \<open>L div T\<close> files, and one
  more when \<open>i < L mod T\<close>; every size is the quotient rounded down or rounded up. The
  files of a list without repetitions, as a list of paths is, fall into chunks that are
  pairwise disjoint. Indexing with the task numbers \<open>0, \<dots>, T - 1\<close> selects the chunks in
  their order.
\<close>

theorem array_split_partition:
  assumes "1 \<le> T"
  shows "\<exists>chunks. array_split files T = Inr chunks \<and> length chunks = nat T \<and>
     concat chunks = files \<and>
     (\<forall>c \<in> set chunks. int (length c) = int (length files) div T \<or>
                        int (length c) = (int (length files) + T - 1) div T) \<and>
     (\<forall>i < nat T. int (length (chunks ! i)) =
        int (length files) div T + (if int i < int (length files) mod T then 1 else 0)) \<and>
     (distinct files \<longrightarrow>
        (\<forall>i < nat T. \<forall>j < nat T. i \<noteq> j \<longrightarrow> set (chunks ! i) \<inter> set (chunks ! j) = {})) \<and>
     map (\<lambda>t. py_index chunks (int t)) [0..<nat T] = map Inr chunks"
proof -
  define n where "n = nat T"
  have T: "T = int n" and n: "0 < n" and nT: "nat T = n"
    using assms by (simp_all add: n_def)
  let ?L = "length files"
  from array_split_segments[OF n, of files] obtain chunks where
    eq: "array_split files (int n) = Inr chunks" and len: "length chunks = n"
    by simp
  have cat: "concat chunks = files" using n eq by (rule array_split_concat)
  have nth: "length (chunks ! i) = ?L div n + (if i < ?L mod n then 1 else 0)" if "i < n" for i
    using n eq that by (rule array_split_nth_length)
  have nth_int: "int (length (chunks ! i)) =
        int ?L div int n + (if int i < int ?L mod int n then 1 else 0)" if "i < n" for i
    using nth[OF that] by (simp add: zdiv_int[symmetric] zmod_int[symmetric])
  have ceil: "(int ?L + int n - 1) div int n = int ((?L + n - 1) div n)"
  proof -
    have e: "int ?L + int n - 1 = int (?L + n - 1)" using n by (simp add: of_nat_diff)
    show ?thesis unfolding e by (rule zdiv_int[symmetric])
  qed
  have sizes: "int (length c) = int ?L div int n \<or> int (length c) = (int ?L + int n - 1) div int n"
    if "c \<in> set chunks" for c
  proof -
    from that obtain i where i: "i < n" "c = chunks ! i"
      using len by (metis in_set_conv_nth)
    have "length c = ?L div n \<or> length c = (?L + n - 1) div n"
      using nth[OF i(1)] i(2) ceil_div_nat[OF n, of ?L] by (auto split: if_splits)
    then show ?thesis
    proof
      assume "length c = ?L div n"
      then have "int (length c) = int (?L div n)" by simp
      then show ?thesis by (simp add: zdiv_int)
    next
      assume "length c = (?L + n - 1) div n"
      then have "int (length c) = int ((?L + n - 1) div n)" by simp
      then show ?thesis by (simp add: ceil)
    qed
  qed
  have disj: "set (chunks ! i) \<inter> set (chunks ! j) = {}"
    if "distinct files" "i < n" "j < n" "i \<noteq> j" for i j
  proof -
    have d: "distinct (concat chunks)" using that(1) cat by simp
    show ?thesis
    proof (cases "i < j")
      case True
      then show ?thesis using distinct_concat_nth_disjoint[OF d] that(3) len by simp
    next
      case False
      then have "j < i" using that(4) by simp
      then have "set (chunks ! j) \<inter> set (chunks ! i) = {}"
        using distinct_concat_nth_disjoint[OF d] that(2) len by simp
      then show ?thesis by blast
    qed
  qed
  have sel: "map (\<lambda>t. py_index chunks (int t)) [0..<n] = map Inr chunks"
  proof -
    have "map (\<lambda>t. py_index chunks (int t)) [0..<n] = map (\<lambda>t. Inr (chunks ! t)) [0..<n]"
      by (rule map_cong) (simp_all add: py_index_nat len)
    also have "\<dots> = map Inr (map (\<lambda>t. chunks ! t) [0..<length chunks])"
      by (simp add: len)
    also have "\<dots> = map Inr chunks" by (simp only: map_nth)
    finally show ?thesis .
  qed
  show ?thesis
    unfolding T nat_int
  proof (intro exI[of _ chunks] conjI ballI allI impI)
    show "array_split files (int n) = Inr chunks" by (rule eq)
    show "length chunks = n" by (rule len)
    show "concat chunks = files" by (rule cat)
    show "map (\<lambda>t. py_index chunks (int t)) [0..<n] = map Inr chunks" by (rule sel)
  qed (use sizes nth_int disj in blast)+
qed

lemma demo_array_split:
  "array_split [''in/ahdf5'', ''in/b.hdf5'', ''in/sub/a.hdf5''] 2
     = Inr [[''in/ahdf5'', ''in/b.hdf5''], [''in/sub/a.hdf5'']]"
  by code_simp

theorem array_split_partition_witness:
  "(1::int) \<le> 2 \<and> distinct [''in/ahdf5'', ''in/b.hdf5'', ''in/sub/a.hdf5''] \<and>
   array_split [''in/ahdf5'', ''in/b.hdf5'', ''in/sub/a.hdf5''] 2
     = Inr [[''in/ahdf5'', ''in/b.hdf5''], [''in/sub/a.hdf5'']] \<and>
   concat [[''in/ahdf5'', ''in/b.hdf5''], [''in/sub/a.hdf5'']]
     = [''in/ahdf5'', ''in/b.hdf5'', ''in/sub/a.hdf5''] \<and>
   set [''in/ahdf5'', ''in/b.hdf5''] \<inter> set [''in/sub/a.hdf5''] = {} \<and>
   py_index [[''in/ahdf5'', ''in/b.hdf5''], [''in/sub/a.hdf5'']] 1 = Inr [''in/sub/a.hdf5'']"
proof -
  have h: "(1::int) \<le> 2" by simp
  have d: "distinct [''in/ahdf5'', ''in/b.hdf5'', ''in/sub/a.hdf5'']" by simp
  from array_split_partition[OF h, of "[''in/ahdf5'', ''in/b.hdf5'', ''in/sub/a.hdf5'']"]
  obtain chunks where
    a: "array_split [''in/ahdf5'', ''in/b.hdf5'', ''in/sub/a.hdf5''] 2 = Inr chunks" and
    b: "concat chunks = [''in/ahdf5'', ''in/b.hdf5'', ''in/sub/a.hdf5'']" and
    c: "distinct [''in/ahdf5'', ''in/b.hdf5'', ''in/sub/a.hdf5''] \<longrightarrow>
        (\<forall>i < nat 2. \<forall>j < nat 2. i \<noteq> j \<longrightarrow> set (chunks ! i) \<inter> set (chunks ! j) = {})" and
    e: "map (\<lambda>t. py_index chunks (int t)) [0..<nat 2] = map Inr chunks"
    by blast
  have ch: "chunks = [[''in/ahdf5'', ''in/b.hdf5''], [''in/sub/a.hdf5'']]"
    using a by (simp add: demo_array_split)
  have c01: "set (chunks ! 0) \<inter> set (chunks ! 1) = {}"
    using c d by simp
  have "py_index chunks 1 = Inr [''in/sub/a.hdf5'']"
    by (simp add: ch py_index_def)
  then show ?thesis
    using h d a b c01 unfolding ch by simp
qed

section \<open>What main does with its arguments\<close>

lemma process_file_negative:
  assumes "readable w input_file" and "ssz < 0"
  shows "process_file w input_file out ssz = (Inr (), w\<lparr>reads := reads w @ [input_file]\<rparr>)"
proof -
  from assms(1) obtain f x y where
    "hdf5_files w input_file = Some f" "full f = Some x" "unitPar f = Some y"
    by (auto simp: readable_def split: option.splits)
  then show ?thesis
    using split_universe_negative[OF assms(2), of x]
    by (simp add: process_file_def read_hdf5_def enumerate_eq_zip)
qed

lemma run_batch_negative:
  assumes "ssz < 0"
  shows "\<forall>f \<in> set files. readable w f \<Longrightarrow>
     run_batch (\<lambda>w' f. process_file w' f out ssz) w files
       = (Inr (), w\<lparr>reads := reads w @ files\<rparr>)"
proof (induction files arbitrary: w)
  case Nil
  show ?case by simp
next
  case (Cons f files)
  have r: "readable w f" using Cons.prems by simp
  let ?w = "w\<lparr>reads := reads w @ [f]\<rparr>"
  have "\<forall>g \<in> set files. readable ?w g"
    using Cons.prems by (simp add: readable_def)
  from Cons.IH[OF this] process_file_negative[OF r assms, of out]
  show ?case by simp
qed

lemma run_batches_negative:
  assumes "ssz < 0"
  shows "\<forall>f \<in> set (concat bs). readable w f \<Longrightarrow>
     run_batches (\<lambda>w' f. process_file w' f out ssz) w bs
       = (Inr (), w\<lparr>reads := reads w @ concat bs\<rparr>)"
proof (induction bs arbitrary: w)
  case Nil
  show ?case by simp
next
  case (Cons b bs)
  have rb: "\<forall>f \<in> set b. readable w f" using Cons.prems by simp
  let ?w = "w\<lparr>reads := reads w @ b\<rparr>"
  have "\<forall>g \<in> set (concat bs). readable ?w g"
    using Cons.prems by (simp add: readable_def)
  from Cons.IH[OF this] run_batch_negative[OF assms rb, of out]
  show ?case by simp
qed

lemma concat_batches: "0 < k \<Longrightarrow> concat (batches k xs) = xs"
proof (induction k xs rule: batches.induct)
  case (1 k xs)
  show ?case
  proof (cases "xs = []")
    case True
    then show ?thesis by (subst batches.simps) simp
  next
    case False
    have "concat (batches k xs) = take k xs @ concat (batches k (drop k xs))"
      using False "1.prems" by (subst batches.simps) simp
    also have "\<dots> = take k xs @ drop k xs"
      using "1.IH" False "1.prems" by simp
    finally show ?thesis by simp
  qed
qed

lemma pool_chunksize_positive:
  assumes "0 < n" and "0 < processes"
  shows "0 < pool_chunksize n processes"
proof (cases "n mod (processes * 4) = 0")
  case True
  then have "n = processes * 4 * (n div (processes * 4))" by auto
  then have "0 < n div (processes * 4)" using assms(1) by (cases "n div (processes * 4)") simp_all
  then show ?thesis using True by (simp add: pool_chunksize_def Let_def)
next
  case False
  then show ?thesis by (simp add: pool_chunksize_def Let_def)
qed

lemma pool_map_negative:
  assumes "ssz < 0" and "0 < processes" and "\<forall>f \<in> set files. readable w f"
  shows "pool_map (\<lambda>w' f. process_file w' f out ssz) processes w files
       = (Inr (), w\<lparr>reads := reads w @ files\<rparr>)"
proof (cases "files = []")
  case True
  then show ?thesis by (simp add: pool_map_def batches.simps)
next
  case False
  then have "0 < pool_chunksize (length files) processes"
    using assms(2) by (simp add: pool_chunksize_positive)
  then have c: "concat (batches (pool_chunksize (length files) processes) files) = files"
    by (rule concat_batches)
  show ?thesis
    unfolding pool_map_def
    using run_batches_negative[OF assms(1), of "batches (pool_chunksize (length files) processes) files" w out]
      assms(3) unfolding c by simp
qed

lemma py_index_range:
  "py_index xs i = (if - int (length xs) \<le> i \<and> i < int (length xs)
     then Inr (xs ! nat (if i < 0 then int (length xs) + i else i)) else Inl IndexError)"
  by (simp add: py_index_def)

lemma array_split_ok:
  assumes "1 \<le> T"
  shows "\<exists>chunks. array_split xs T = Inr chunks \<and> length chunks = nat T"
proof -
  have n: "0 < nat T" and T: "T = int (nat T)" using assms by simp_all
  from array_split_segments[OF n, of xs] show ?thesis
    by (subst T) simp
qed

lemma demo_main_files:
  "find_files ''in'' (Dir [(''a.hdf5'', File)]) None = [''in/a.hdf5'']"
  "array_split [''in/a.hdf5''] 1 = Inr [[''in/a.hdf5'']]"
  by code_simp+

lemma demo_readable: "readable demo_world ''in/a.hdf5''"
  by (simp add: readable_def demo_world_def demo_file_def)

text \<open>
  Claim C6, as far as the code checks its arguments. Once the output directory is made,
  a number of tasks below 1 raises \<open>ValueError\<close>, a task index outside
  \<open>[- n_tasks, n_tasks)\<close> raises \<open>IndexError\<close> and a number of workers below 1 raises
  \<open>ValueError\<close>, each before any source file is opened and before any record file is
  written. A negative sample size is not refused: with a task index in \<open>[0, n_tasks)\<close>, at
  least one worker and source files that can be read, the run opens every file of its
  chunk, writes nothing and ends without an exception.
\<close>

theorem main_argument_handling:
  assumes "can_makedirs w (output_dir a)"
  shows "(n_tasks a \<le> 0 \<longrightarrow>
       main a w = (Inl ValueError, w\<lparr>made_dirs := made_dirs w @ [output_dir a]\<rparr>)) \<and>
     (1 \<le> n_tasks a \<and> (task a < - n_tasks a \<or> n_tasks a \<le> task a) \<longrightarrow>
       main a w = (Inl IndexError, w\<lparr>made_dirs := made_dirs w @ [output_dir a]\<rparr>)) \<and>
     (1 \<le> n_tasks a \<and> - n_tasks a \<le> task a \<and> task a < n_tasks a \<and> n_workers a < 1 \<longrightarrow>
       main a w = (Inl ValueError, w\<lparr>made_dirs := made_dirs w @ [output_dir a]\<rparr>)) \<and>
     (1 \<le> n_tasks a \<and> 0 \<le> task a \<and> task a < n_tasks a \<and> 1 \<le> n_workers a \<and>
      sample_size a < 0 \<longrightarrow>
       (\<exists>chunks. array_split (find_files (input_dir a) (input_tree w) (max_files a)) (n_tasks a)
            = Inr chunks \<and>
          ((\<forall>f \<in> set (chunks ! nat (task a)). readable w f) \<longrightarrow>
             main a w = (Inr (), w\<lparr>made_dirs := made_dirs w @ [output_dir a],
                                     reads := reads w @ chunks ! nat (task a)\<rparr>))))"
proof (intro conjI impI)
  assume "n_tasks a \<le> 0"
  then show "main a w = (Inl ValueError, w\<lparr>made_dirs := made_dirs w @ [output_dir a]\<rparr>)"
    using assms by (simp add: main_def array_split_def Let_def)
next
  assume h: "1 \<le> n_tasks a \<and> (task a < - n_tasks a \<or> n_tasks a \<le> task a)"
  from array_split_ok[of "n_tasks a" "find_files (input_dir a) (input_tree w) (max_files a)"] h
  obtain chunks where
    c: "array_split (find_files (input_dir a) (input_tree w) (max_files a)) (n_tasks a) = Inr chunks"
       "length chunks = nat (n_tasks a)"
    by blast
  have "py_index chunks (task a) = Inl IndexError"
    using h c(2) by (auto simp: py_index_range)
  then show "main a w = (Inl IndexError, w\<lparr>made_dirs := made_dirs w @ [output_dir a]\<rparr>)"
    using assms c(1) by (simp add: main_def Let_def)
next
  assume h: "1 \<le> n_tasks a \<and> - n_tasks a \<le> task a \<and> task a < n_tasks a \<and> n_workers a < 1"
  from array_split_ok[of "n_tasks a" "find_files (input_dir a) (input_tree w) (max_files a)"] h
  obtain chunks where
    c: "array_split (find_files (input_dir a) (input_tree w) (max_files a)) (n_tasks a) = Inr chunks"
       "length chunks = nat (n_tasks a)"
    by blast
  have "\<exists>fs. py_index chunks (task a) = Inr fs"
    using h c(2) by (auto simp: py_index_range)
  then show "main a w = (Inl ValueError, w\<lparr>made_dirs := made_dirs w @ [output_dir a]\<rparr>)"
    using assms c(1) h by (auto simp: main_def Let_def)
next
  assume h: "1 \<le> n_tasks a \<and> 0 \<le> task a \<and> task a < n_tasks a \<and> 1 \<le> n_workers a \<and>
      sample_size a < 0"
  from array_split_ok[of "n_tasks a" "find_files (input_dir a) (input_tree w) (max_files a)"] h
  obtain chunks where
    c: "array_split (find_files (input_dir a) (input_tree w) (max_files a)) (n_tasks a) = Inr chunks"
       "length chunks = nat (n_tasks a)"
    by blast
  have ix: "py_index chunks (task a) = Inr (chunks ! nat (task a))"
    using h c(2) by (simp add: py_index_def)
  have "main a w = (Inr (), w\<lparr>made_dirs := made_dirs w @ [output_dir a],
                                     reads := reads w @ chunks ! nat (task a)\<rparr>)"
    if r: "\<forall>f \<in> set (chunks ! nat (task a)). readable w f"
  proof -
    let ?w1 = "w\<lparr>made_dirs := made_dirs w @ [output_dir a]\<rparr>"
    have "\<forall>f \<in> set (chunks ! nat (task a)). readable ?w1 f"
      using r by (simp add: readable_def)
    from pool_map_negative[OF _ _ this, of "sample_size a" "nat (n_workers a)" "output_dir a"] h
    have "pool_map (\<lambda>w' f. process_file w' f (output_dir a) (sample_size a))
            (nat (n_workers a)) ?w1 (chunks ! nat (task a))
        = (Inr (), ?w1\<lparr>reads := reads ?w1 @ chunks ! nat (task a)\<rparr>)"
      by simp
    then show ?thesis
      using assms c(1) ix h by (simp add: main_def Let_def)
  qed
  then show "\<exists>chunks. array_split (find_files (input_dir a) (input_tree w) (max_files a)) (n_tasks a)
            = Inr chunks \<and>
          ((\<forall>f \<in> set (chunks ! nat (task a)). readable w f) \<longrightarrow>
             main a w = (Inr (), w\<lparr>made_dirs := made_dirs w @ [output_dir a],
                                     reads := reads w @ chunks ! nat (task a)\<rparr>))"
    using c(1) by blast
qed

theorem main_argument_handling_witness:
  "can_makedirs demo_world (output_dir demo_args) \<and>
   main (demo_args\<lparr>n_tasks := 0\<rparr>) demo_world
     = (Inl ValueError, demo_world\<lparr>made_dirs := [''out'']\<rparr>) \<and>
   main (demo_args\<lparr>task := 1\<rparr>) demo_world
     = (Inl IndexError, demo_world\<lparr>made_dirs := [''out'']\<rparr>) \<and>
   main (demo_args\<lparr>n_workers := 0\<rparr>) demo_world
     = (Inl ValueError, demo_world\<lparr>made_dirs := [''out'']\<rparr>) \<and>
   main demo_args demo_world
     = (Inr (), demo_world\<lparr>made_dirs := [''out''], reads := [''in/a.hdf5'']\<rparr>)"
proof -
  have w: "reads demo_world = []" "made_dirs demo_world = []"
    "input_tree demo_world = Dir [(''a.hdf5'', File)]"
    by (simp_all add: demo_world_def)
  have m: "can_makedirs demo_world (output_dir (demo_args\<lparr>n_tasks := 0\<rparr>))"
    "can_makedirs demo_world (output_dir (demo_args\<lparr>task := 1\<rparr>))"
    "can_makedirs demo_world (output_dir (demo_args\<lparr>n_workers := 0\<rparr>))"
    "can_makedirs demo_world (output_dir demo_args)"
    by (simp_all add: demo_world_def)
  have a1: "main (demo_args\<lparr>n_tasks := 0\<rparr>) demo_world
     = (Inl ValueError, demo_world\<lparr>made_dirs := [''out'']\<rparr>)"
    using main_argument_handling[OF m(1)] by (simp add: demo_args_def w)
  have a2: "main (demo_args\<lparr>task := 1\<rparr>) demo_world
     = (Inl IndexError, demo_world\<lparr>made_dirs := [''out'']\<rparr>)"
    using main_argument_handling[OF m(2)] by (simp add: demo_args_def w)
  have a3: "main (demo_args\<lparr>n_workers := 0\<rparr>) demo_world
     = (Inl ValueError, demo_world\<lparr>made_dirs := [''out'']\<rparr>)"
    using main_argument_handling[OF m(3)] by (simp add: demo_args_def w)
  have a4: "main demo_args demo_world
     = (Inr (), demo_world\<lparr>made_dirs := [''out''], reads := [''in/a.hdf5'']\<rparr>)"
    using main_argument_handling[OF m(4)] demo_readable
    by (simp add: demo_args_def w demo_main_files)
  show ?thesis using m(4) a1 a2 a3 a4 by simp
qed

text \<open>
  Claim C6 as it is stated fails for the sample size \<open>-1\<close>: the run does not fail at its
  start, it opens the source file and ends without an exception.
\<close>

theorem negative_sample_size_accepted:
  "sample_size demo_args < 0 \<and>
   main demo_args demo_world
     = (Inr (), demo_world\<lparr>made_dirs := [''out''], reads := [''in/a.hdf5'']\<rparr>)"
proof -
  let ?w1 = "demo_world\<lparr>made_dirs := [''out'']\<rparr>"
  have r: "readable ?w1 ''in/a.hdf5''"
    using demo_readable by (simp add: readable_def)
  have "pool_map (\<lambda>w' f. process_file w' f ''out'' (- 1)) (Suc 0) ?w1 [''in/a.hdf5'']
      = (Inr (), ?w1\<lparr>reads := reads ?w1 @ [''in/a.hdf5'']\<rparr>)"
    by (rule pool_map_negative) (simp_all add: r)
  moreover have "reads demo_world = []" "made_dirs demo_world = []"
    "can_makedirs demo_world ''out''" "input_tree demo_world = Dir [(''a.hdf5'', File)]"
    by (simp_all add: demo_world_def)
  ultimately show ?thesis
    by (simp add: main_def demo_args_def demo_main_files py_index_def)
qed

section \<open>The names of the output files\<close>

lemma name_without_dot:
  "output_file_name ''out'' ''in/ahdf5'' i = ''out/ahdf5''"
proof -
  have b: "os_path_basename ''in/ahdf5'' = ''ahdf5''" by code_simp
  have r: "str_replace ''ahdf5'' ''.hdf5'' new = ''ahdf5''" for new
    by (simp add: str_replace_def startswith_def)
  have j: "os_path_join ''out'' ''ahdf5'' = ''out/ahdf5''" by code_simp
  show ?thesis by (simp only: output_file_name_def b r j)
qed

lemma demo_split_one:
  "split_universe [[[0x41300000, 0x41400000], [0x41500000, 0x41600000]],
                   [[0x41700000, 0x41800000], [0x41880000, 0x41900000 :: float32]]] 1 =
     Inr [[[[0x41300000]]], [[[0x41400000]]], [[[0x41500000]]], [[[0x41600000]]],
          [[[0x41700000]]], [[[0x41800000]]], [[[0x41880000]]], [[[0x41900000]]]]"
  by code_simp

lemma demo_enumerate:
  "enumerate 0 [a0, a1, a2, a3, a4, a5, a6, a7]
     = [(0, a0), (1, a1), (2, a2), (3, a3), (4, a4), (5, a5), (6, a6), (7, a7)]"
  by (simp add: enumerate_eq_zip upt_rec)

lemma demo_sources3:
  "(\<lambda>p. if p = ''in/ahdf5'' then Some demo_file else None)(''out/ahdf5'' := None)
     = (\<lambda>p. if p = ''in/ahdf5'' then Some demo_file else None)"
  by (rule ext) simp

text \<open>
  Claim C3 at a source file that \<open>find_files\<close> returns and whose name ends in \<open>hdf5\<close>
  without a dot. \<open>replace\<close> finds no \<open>.hdf5\<close> in the name, so the output file of every
  index is the source file's own name inside the output directory: the names of the
  indices 0 and 1 are equal, and a run over the eight sub-volumes of the example leaves one
  record file, which holds the record of the last sub-volume.
\<close>

theorem output_file_name_collision:
  "''in/ahdf5'' \<in> set (find_files ''in'' demo_tree None) \<and>
   output_file_name ''out'' ''in/ahdf5'' 0 = ''out/ahdf5'' \<and>
   output_file_name ''out'' ''in/ahdf5'' 1 = ''out/ahdf5'' \<and>
   process_file demo_world3 ''in/ahdf5'' ''out'' 1 =
     (Inr (), demo_world3\<lparr>reads := [''in/ahdf5''],
        outputs := [''out/ahdf5'' \<mapsto>
          tfrecord (example_bytes True
            \<lparr>feature_x = [0x41900000], feature_y = [0x41A80000, 0x41B00000]\<rparr>)]\<rparr>)"
proof -
  have o: "write_record w ''out/ahdf5'' \<lparr>feature_x = [c], feature_y = [0x41A80000, 0x41B00000]\<rparr>
     = (Inr (), w\<lparr>outputs := (outputs w)(''out/ahdf5'' \<mapsto>
           tfrecord (example_bytes True \<lparr>feature_x = [c], feature_y = [0x41A80000, 0x41B00000]\<rparr>)),
         hdf5_files := (hdf5_files w)(''out/ahdf5'' := None)\<rparr>)"
    if "writable w ''out/ahdf5''" and "entry_order w = (\<lambda>e. True)" for w :: "float32 world" and c
    using write_record_ok[OF that(1), of "\<lparr>feature_x = [c], feature_y = [0x41A80000, 0x41B00000]\<rparr>"]
    by (simp add: that(2))
  have "process_file demo_world3 ''in/ahdf5'' ''out'' 1 =
     (Inr (), demo_world3\<lparr>reads := [''in/ahdf5''],
        outputs := [''out/ahdf5'' \<mapsto>
          tfrecord (example_bytes True
            \<lparr>feature_x = [0x41900000], feature_y = [0x41A80000, 0x41B00000]\<rparr>)]\<rparr>)"
    by (simp add: process_file_def read_hdf5_def demo_world3_def demo_world_def demo_file_def
        demo_split_one demo_enumerate o name_without_dot flatten_def demo_sources3)
  then show ?thesis
    by (simp add: demo_find_all name_without_dot)
qed

lemma digit_value_nth: "d < 10 \<Longrightarrow> digit_value (''0123456789'' ! d) = d"
proof -
  assume "d < 10"
  then have "d = 0 \<or> d = 1 \<or> d = 2 \<or> d = 3 \<or> d = 4 \<or> d = 5 \<or> d = 6 \<or> d = 7
    \<or> d = 8 \<or> d = 9"
    by arith
  then show ?thesis
    by (elim disjE) (simp_all add: digit_value_def)
qed

lemma undecimal_snoc: "undecimal (s @ [c]) = 10 * undecimal s + digit_value c"
  by (simp add: undecimal_def)

lemma undecimal_decimal: "undecimal (decimal n) = n"
proof (induction n rule: decimal.induct)
  case (1 n)
  show ?case
  proof (cases "n < 10")
    case True
    then have "decimal n = [''0123456789'' ! n]" by (subst decimal.simps) simp
    then show ?thesis using digit_value_nth[OF True] by (simp add: undecimal_def)
  next
    case False
    then have d: "decimal n = decimal (n div 10) @ [''0123456789'' ! (n mod 10)]"
      by (subst decimal.simps) simp
    have "undecimal (decimal n) = 10 * (n div 10) + n mod 10"
      unfolding d undecimal_snoc using "1.IH"[OF False] digit_value_nth[of "n mod 10"] by simp
    then show ?thesis by simp
  qed
qed

lemma undecimal_zeros: "undecimal (replicate k CHR ''0'' @ s) = undecimal s"
proof -
  have z: "digit_value CHR ''0'' = 0" by (simp add: digit_value_def)
  have "foldl (\<lambda>acc c. 10 * acc + digit_value c) 0 (replicate k CHR ''0'') = 0"
    by (induction k) (simp_all add: z)
  then show ?thesis by (simp add: undecimal_def)
qed

lemma undecimal_fmt_03i: "undecimal (fmt_03i (int i)) = i"
  by (simp add: fmt_03i_def Let_def undecimal_zeros undecimal_decimal)

lemma fmt_03i_inj: "fmt_03i (int i) = fmt_03i (int j) \<Longrightarrow> i = j"
  by (metis undecimal_fmt_03i)

lemma replace_extension:
  "CHR ''.'' \<notin> set stem \<Longrightarrow> str_replace (stem @ ''.hdf5'') ''.hdf5'' new = stem @ new"
proof -
  assume "CHR ''.'' \<notin> set stem"
  then have "replace_from (stem @ ''.hdf5'') ''.hdf5'' new = stem @ new"
  proof (induction stem)
    case Nil
    show ?case by (simp add: startswith_def)
  next
    case (Cons c stem)
    then have "c \<noteq> CHR ''.''" by auto
    then have "\<not> startswith (c # stem @ ''.hdf5'') ''.hdf5''"
      by (simp add: startswith_def)
    with Cons show ?case by simp
  qed
  then show ?thesis by (simp add: str_replace_def)
qed

lemma basename_of_join:
  "CHR ''/'' \<notin> set name \<Longrightarrow> os_path_basename (dir @ ''/'' @ name) = name"
proof -
  assume n: "CHR ''/'' \<notin> set name"
  have "rev (dir @ ''/'' @ name) = rev name @ CHR ''/'' # rev dir" by simp
  moreover have "takeWhile (\<lambda>c. c \<noteq> CHR ''/'') (rev name @ CHR ''/'' # rev dir) = rev name"
    using n by (auto simp: takeWhile_tail)
  ultimately show ?thesis by (simp add: os_path_basename_def)
qed

lemma os_path_join_relative:
  "\<not> startswith b ''/'' \<Longrightarrow> \<exists>pre. \<forall>b'. \<not> startswith b' ''/'' \<longrightarrow> os_path_join a b' = pre @ b'"
  by (cases "a = [] \<or> endswith a ''/''") (auto simp: os_path_join_def)

text \<open>
  Where the naming does what is meant: for a source file \<open>dir/stem.hdf5\<close> whose stem has no
  dot, the output file of the index \<open>i\<close> is \<open>stem_\<close>, the index filled with zeros to three
  digits, and \<open>.tfrecord\<close>, inside the output directory, and two indices never share a name.
\<close>

lemma output_file_name_dotted:
  assumes "CHR ''.'' \<notin> set stem" and "CHR ''/'' \<notin> set stem"
  shows "output_file_name out (dir @ ''/'' @ stem @ ''.hdf5'') i
      = os_path_join out (stem @ ''_'' @ fmt_03i (int i) @ ''.tfrecord'')"
    and "output_file_name out (dir @ ''/'' @ stem @ ''.hdf5'') i
      = output_file_name out (dir @ ''/'' @ stem @ ''.hdf5'') j \<Longrightarrow> i = j"
proof -
  have "CHR ''/'' \<notin> set (stem @ ''.hdf5'')" using assms(2) by simp
  then have b: "os_path_basename (dir @ ''/'' @ stem @ ''.hdf5'') = stem @ ''.hdf5''"
    using basename_of_join[of "stem @ ''.hdf5''" dir] by simp
  show eq: "output_file_name out (dir @ ''/'' @ stem @ ''.hdf5'') i
      = os_path_join out (stem @ ''_'' @ fmt_03i (int i) @ ''.tfrecord'')" for i
    unfolding output_file_name_def b replace_extension[OF assms(1)] ..
  have rel: "\<not> startswith (stem @ ''_'' @ fmt_03i (int i) @ ''.tfrecord'') ''/''" for i
    using assms(2) by (cases stem) (auto simp: startswith_def)
  from os_path_join_relative[OF rel[of i], of out] obtain pre where
    pre: "\<And>b'. \<not> startswith b' ''/'' \<Longrightarrow> os_path_join out b' = pre @ b'" by blast
  assume "output_file_name out (dir @ ''/'' @ stem @ ''.hdf5'') i
      = output_file_name out (dir @ ''/'' @ stem @ ''.hdf5'') j"
  then have "pre @ stem @ ''_'' @ fmt_03i (int i) @ ''.tfrecord''
      = pre @ stem @ ''_'' @ fmt_03i (int j) @ ''.tfrecord''"
    unfolding eq using pre[OF rel[of i]] pre[OF rel[of j]] by simp
  then have "fmt_03i (int i) = fmt_03i (int j)" by simp
  then show "i = j" by (rule fmt_03i_inj)
qed

end
